theory Spec2Isabelle
  imports Complex_Main
begin

section \<open>Relay hints: shareability, selection and rank aggregation\<close>

text \<open>
  The second half of \<^verbatim>\<open>feed.ts\<close> (the relay utilities) is embedded first. A JavaScript
  string is modelled as a \<^typ>\<open>string\<close>, one \<^typ>\<open>char\<close> per UTF-16 code unit, so the model
  covers the strings whose code units are below 256. JavaScript numbers that hold list
  positions, lengths and limits are integers; the scores of \<^verbatim>\<open>mergeHints\<close> are IEEE doubles
  in the source and real numbers here (\<^verbatim>\<open>Math.log\<close> is \<^const>\<open>ln\<close>, \<^verbatim>\<open>Math.exp\<close> is
  \<^const>\<open>exp\<close>, \<^verbatim>\<open>Math.log1p x\<close> is \<open>ln (1 + x)\<close>). A limit is an integer or \<^verbatim>\<open>null\<close>
  (\<open>None\<close>), and the candidates of the selector, an iterable in the source, are a
  finite list.
\<close>

subsection \<open>The regular expressions of \<^verbatim>\<open>isShareableRelay\<close>\<close>

text \<open>
  Every regular expression of the source is a sequence of character classes, each taken
  once, optionally (\<^verbatim>\<open>?\<close>) or one or more times (\<^verbatim>\<open>+\<close>). \<open>match_here\<close> is the backtracking
  matcher anchored at the start of the string (\<^verbatim>\<open>^\<close>); \<open>search\<close> tries every start
  position, as \<^verbatim>\<open>String.prototype.match\<close> does for a pattern without \<^verbatim>\<open>^\<close>.
\<close>

datatype quant = One | Opt | Plus

type_synonym pattern = "((char \<Rightarrow> bool) \<times> quant) list"

function match_here :: "pattern \<Rightarrow> string \<Rightarrow> bool" where
  "match_here [] s = True"
| "match_here ((p, One) # ps) s =
     (case s of [] \<Rightarrow> False | c # cs \<Rightarrow> p c \<and> match_here ps cs)"
| "match_here ((p, Opt) # ps) s =
     ((case s of [] \<Rightarrow> False | c # cs \<Rightarrow> p c \<and> match_here ps cs) \<or> match_here ps s)"
| "match_here ((p, Plus) # ps) s =
     (case s of [] \<Rightarrow> False
      | c # cs \<Rightarrow> p c \<and> (match_here ((p, Plus) # ps) cs \<or> match_here ps cs))"
  by pat_completeness auto
termination
  by (relation "measure (\<lambda>(ps, s). length ps + length s)") auto

fun search :: "pattern \<Rightarrow> string \<Rightarrow> bool" where
  "search ps [] = match_here ps []"
| "search ps (c # cs) = (match_here ps (c # cs) \<or> search ps cs)"

definition lit :: "string \<Rightarrow> pattern" where
  "lit s = map (\<lambda>c. ((\<lambda>d. d = c), One)) s"

definition line_terminator :: "char \<Rightarrow> bool" where
  "line_terminator c = (c \<in> set [CHR 0x0A, CHR 0x0D])"

definition any_char :: "char \<Rightarrow> bool" where
  \<comment> \<open>the class \<^verbatim>\<open>.\<close>: every code unit but a line terminator\<close>
  "any_char c = (\<not> line_terminator c)"

definition digit :: "char \<Rightarrow> bool" where
  \<comment> \<open>the class \<^verbatim>\<open>\d\<close>\<close>
  "digit c = (c \<in> set ''0123456789'')"

definition whitespace :: "char \<Rightarrow> bool" where
  \<comment> \<open>the class \<^verbatim>\<open>\s\<close> on code units below 256\<close>
  "whitespace c =
     (c \<in> set [CHR 0x09, CHR 0x0A, CHR 0x0B, CHR 0x0C, CHR 0x0D, CHR 0x20, CHR 0xA0])"

function count_matches :: "string \<Rightarrow> string \<Rightarrow> nat" where
  "count_matches l [] = 0"
| "count_matches l (c # cs) =
     (if l \<noteq> [] \<and> take (length l) (c # cs) = l
      then Suc (count_matches l (drop (length l - 1) cs))
      else count_matches l cs)"
  by pat_completeness auto
termination
  by (relation "measure (\<lambda>(l, s). length s)") auto

text \<open>
  \<open>count_matches l s\<close> is the length of \<^verbatim>\<open>s.match(/l/g)\<close> for a literal \<open>l\<close>: the matches
  are found left to right and do not overlap. With no match the source has \<^verbatim>\<open>null\<close>, and
  \<^verbatim>\<open>null.length\<close> would raise; \<^verbatim>\<open>isShareableRelay\<close> reaches that conjunct only after its
  first pattern has matched, so that \<^verbatim>\<open>://\<close> occurs (lemma \<open>first_pattern_has_separator\<close>).
\<close>

definition isShareableRelay :: "string \<Rightarrow> bool" where
  "isShareableRelay url =
     (match_here (lit ''ws'' @ [((\<lambda>c. c = CHR ''s''), Opt)] @ lit ''://''
         @ [(any_char, Plus)] @ lit ''.'' @ [(any_char, Plus)]) url \<and>
      count_matches ''://'' url = 1 \<and>
      \<not> search [(whitespace, One)] url \<and>
      \<not> search (lit ''%'') url \<and>
      match_here (lit ''wss://'' @ [(any_char, Plus)]) url \<and>
      \<not> search (lit '':'' @ [(digit, Plus)]) (drop 6 url) \<and>
      \<not> search ([(digit, Plus)] @ lit ''.'' @ [(digit, Plus)] @ lit ''.''
                  @ [(digit, Plus)] @ lit ''.'' @ [(digit, Plus)]) (drop 6 url) \<and>
      \<not> search (lit ''/npub'') (drop 6 url))"

subsection \<open>The selector \<^verbatim>\<open>selectHints\<close>\<close>

text \<open>
  What the selector reads from the rest of the application is an explicit environment:
  the setting \<^verbatim>\<open>relay_limit\<close>, the user's read relays, the default relays of the build,
  and the quality that the connection pool has recorded for a relay (\<open>None\<close> when the pool
  has no connection or no quality for it, where the source compares \<^verbatim>\<open>undefined < 0.6\<close>,
  which is false).
\<close>

record Env =
  relay_limit :: int
  user_read_relays :: "string list"
  default_relays :: "string list"
  quality :: "string \<Rightarrow> real option"

definition relayIsLowQuality :: "Env \<Rightarrow> string \<Rightarrow> bool" where
  "relayIsLowQuality env url = (case quality env url of None \<Rightarrow> False | Some q \<Rightarrow> q < 0.6)"

definition slice0 :: "int \<Rightarrow> 'a list \<Rightarrow> 'a list" where
  \<comment> \<open>\<^verbatim>\<open>xs.slice(0, e)\<close>: a negative end counts from the end of the array\<close>
  "slice0 e xs = (if e < 0 then take (nat (int (length xs) + e)) xs else take (nat e) xs)"

definition or_default :: "int option \<Rightarrow> int \<Rightarrow> int" where
  \<comment> \<open>\<^verbatim>\<open>limit || d\<close>: \<^verbatim>\<open>null\<close> and \<open>0\<close> are falsy\<close>
  "or_default limit d = (case limit of None \<Rightarrow> d | Some l \<Rightarrow> if l = 0 then d else l)"

text \<open>
  The \<^verbatim>\<open>for\<close> loop of \<^verbatim>\<open>selectHints\<close> over the chained candidates, with its three
  accumulators; \<^verbatim>\<open>continue\<close> is the recursive call on the rest, \<^verbatim>\<open>break\<close> returns.
\<close>

fun select_loop ::
  "Env \<Rightarrow> int \<Rightarrow> string list \<Rightarrow> string set \<Rightarrow> string list \<Rightarrow> string list
    \<Rightarrow> string list \<times> string list" where
  "select_loop env limit [] seen ok bad = (ok, bad)"
| "select_loop env limit (url # rest) seen ok bad =
     (if url \<in> seen then select_loop env limit rest seen ok bad
      else if \<not> isShareableRelay url then select_loop env limit rest (insert url seen) ok bad
      else
        let ok' = (if relayIsLowQuality env url then ok else ok @ [url]);
            bad' = (if relayIsLowQuality env url then bad @ [url] else bad)
        in if int (length ok') > limit then (ok', bad')
           else select_loop env limit rest (insert url seen) ok' bad')"

definition selectHints :: "Env \<Rightarrow> string list \<Rightarrow> int option \<Rightarrow> string list" where
  "selectHints env hints limit =
     (let limit' = or_default limit (relay_limit env);
          (ok, bad) = select_loop env limit'
                        (hints @ user_read_relays env @ default_relays env) {} [] []
      in slice0 limit' (ok @ bad))"

subsection \<open>The scorer \<^verbatim>\<open>mergeHints\<close>\<close>

text \<open>
  \<^verbatim>\<open>scores\<close> is a plain object used as a dictionary. Its own properties are kept as an
  association list in creation order. A key that names a property of \<^verbatim>\<open>Object.prototype\<close>
  reads as a truthy inherited value, so that no own property is ever created for it.
  \<^verbatim>\<open>Object.entries\<close> lists the keys that are array indices first, in numeric order, and
  the other keys after them in creation order. The weights are real numbers here, so the
  order of the merge is the order of the code where the weights compared differ by more
  than the rounding of doubles; the statements below compare weights that do, or do not
  depend on the order.
\<close>

record ScoredHint =
  score :: real
  count :: nat

type_synonym scores = "(string \<times> ScoredHint) list"

definition proto_keys :: "string list" where
  "proto_keys = [''constructor'', ''__proto__'', ''__defineGetter__'', ''__defineSetter__'',
     ''__lookupGetter__'', ''__lookupSetter__'', ''hasOwnProperty'', ''isPrototypeOf'',
     ''propertyIsEnumerable'', ''toLocaleString'', ''toString'', ''valueOf'']"

fun bump :: "real \<Rightarrow> string \<Rightarrow> scores \<Rightarrow> scores" where
  \<comment> \<open>the body of the \<^verbatim>\<open>forEach\<close> callback for a key that is not inherited\<close>
  "bump s hint [] = [(hint, \<lparr>score = 0 + s, count = 0 + 1\<rparr>)]"
| "bump s hint ((k, v) # sc) =
     (if k = hint then (k, \<lparr>score = score v + s, count = count v + 1\<rparr>) # sc
      else (k, v) # bump s hint sc)"

definition add_hint :: "nat \<Rightarrow> scores \<Rightarrow> string \<times> nat \<Rightarrow> scores" where
  "add_hint len sc = (\<lambda>(hint, i).
     if hint \<in> set proto_keys then sc else bump (1 / real (i + 1) / real len) hint sc)"

definition add_group :: "scores \<Rightarrow> string list \<Rightarrow> scores" where
  "add_group sc hints = foldl (add_hint (length hints)) sc (zip hints [0 ..< length hints])"

definition final_weight :: "nat \<Rightarrow> ScoredHint \<Rightarrow> real" where
  "final_weight n v =
     ln (real n / real (count v)) + ln (1 + exp (score v - real (count v)))"

definition index_value :: "string \<Rightarrow> nat" where
  "index_value k = foldl (\<lambda>n c. 10 * n + (of_char c - 48)) 0 k"

definition is_array_index :: "string \<Rightarrow> bool" where
  "is_array_index k =
     (k \<noteq> [] \<and> list_all digit k \<and> (hd k = CHR ''0'' \<longrightarrow> length k = 1) \<and>
      index_value k < 4294967295)"

definition entries :: "(string \<times> 'v) list \<Rightarrow> (string \<times> 'v) list" where
  "entries sc =
     sort_key (\<lambda>kv. index_value (fst kv)) (filter (\<lambda>kv. is_array_index (fst kv)) sc)
     @ filter (\<lambda>kv. \<not> is_array_index (fst kv)) sc"

definition weighted :: "string list list \<Rightarrow> (string \<times> real) list" where
  \<comment> \<open>the dictionary after both loops: every own key with its final weight\<close>
  "weighted groups =
     map (\<lambda>(k, v). (k, final_weight (length groups) v)) (foldl add_group [] groups)"

definition mergeHints :: "Env \<Rightarrow> string list list \<Rightarrow> int option \<Rightarrow> string list" where
  "mergeHints env groups limit =
     slice0 (or_default limit (relay_limit env))
       (map fst (sort_key snd (entries (weighted groups))))"

section \<open>The feed loader\<close>

text \<open>
  \<^verbatim>\<open>FeedLoader\<close> keeps references to event objects and mutates the \<^verbatim>\<open>replies\<close> of an
  object that several places refer to (the feed, the parents map, another object's
  replies). Event objects therefore live in an explicit store, addressed by \<open>addr\<close>, and
  every list of events of the source is a list of addresses. The store holds every event
  object the transport creates; the loader only ever writes the \<^verbatim>\<open>replies\<close> field.
  The fields \<^verbatim>\<open>id\<close> and \<^verbatim>\<open>notes\<close> are written \<open>id'\<close> and \<open>notes'\<close>, since the plain
  names are taken in Isabelle.
\<close>

type_synonym addr = nat

type_synonym sub = nat

record DisplayEvent =
  id' :: string
  pubkey :: string
  kind :: int
  created_at :: int
  tags :: "string list list"
  content :: string
  replies :: "addr list option"

type_synonym store = "addr \<Rightarrow> DisplayEvent"

text \<open>
  The imports of the class that are not among the sources are parameters: \<^verbatim>\<open>findReplyId\<close>
  (it reads the tags of an event; \<open>None\<close> is \<^verbatim>\<open>undefined\<close>), the kind tables
  \<^verbatim>\<open>noteKinds\<close> and \<^verbatim>\<open>reactionKinds\<close>, the mute predicate, and the value of
  \<^verbatim>\<open>guessFilterDelta\<close> on the filters of the loader. The class of the subscription handles
  is not among the sources either: \<open>closeEmits\<close> says of a handle whether its \<^verbatim>\<open>close()\<close>
  fires the \<^verbatim>\<open>close\<close> listeners before it returns.
\<close>

record Deps =
  findReplyId :: "string list list \<Rightarrow> string option"
  noteKinds :: "int list"
  reactionKinds :: "int list"
  isEventMuted :: "DisplayEvent \<Rightarrow> bool"
  guessFilterDelta :: int
  closeEmits :: "sub \<Rightarrow> bool"

record FeedOpts =
  relays :: "string list"
  shouldDefer :: bool
  shouldListen :: bool
  shouldHideReplies :: bool
  shouldLoadParents :: bool

text \<open>
  The fields of the class, then the store, the callbacks that \<^verbatim>\<open>setTimeout\<close> holds
  (the delay and the captured list \<^verbatim>\<open>defer\<close>, in scheduling order), and the handles on
  which \<^verbatim>\<open>close()\<close> has been called. A \<^verbatim>\<open>close\<close> event that reaches the loader later is the
  action \<open>SubClosed\<close> below.
\<close>

record FeedLoader =
  since :: int
  stopped :: bool
  subs :: "sub list"
  buffer :: "addr list"
  notes' :: "addr list"
  parents :: "string \<rightharpoonup> addr"
  deferred :: "addr list"
  heap :: store
  timers :: "(nat \<times> addr list) list"
  closed_subs :: "sub set"

subsection \<open>Helpers from ramda and the utilities\<close>

fun uniqBy_from :: "'b set \<Rightarrow> ('a \<Rightarrow> 'b) \<Rightarrow> 'a list \<Rightarrow> 'a list" where
  "uniqBy_from seen f [] = []"
| "uniqBy_from seen f (x # xs) =
     (if f x \<in> seen then uniqBy_from seen f xs
      else x # uniqBy_from (insert (f x) seen) f xs)"

definition uniqBy :: "('a \<Rightarrow> 'b) \<Rightarrow> 'a list \<Rightarrow> 'a list" where
  \<comment> \<open>ramda's \<^verbatim>\<open>uniqBy\<close>: the first element of every key is kept\<close>
  "uniqBy f xs = uniqBy_from {} f xs"

definition reply_target :: "Deps \<Rightarrow> DisplayEvent \<Rightarrow> string option" where
  \<comment> \<open>\<^verbatim>\<open>findReplyId(e)\<close> where the source tests it for truthiness: the empty string is falsy\<close>
  "reply_target deps e =
     (case findReplyId deps (tags e) of None \<Rightarrow> None
      | Some parentId \<Rightarrow> if parentId = [] then None else Some parentId)"

definition replies_or_empty :: "DisplayEvent \<Rightarrow> addr list" where
  \<comment> \<open>\<^verbatim>\<open>parent.replies || []\<close>\<close>
  "replies_or_empty e = (case replies e of None \<Rightarrow> [] | Some rs \<Rightarrow> rs)"

definition pushToKey :: "store \<Rightarrow> addr \<Rightarrow> addr \<Rightarrow> store" where
  \<comment> \<open>Modelled from the spec: \<^verbatim>\<open>pushToKey\<close> of \<^verbatim>\<open>src/util/misc\<close> is not among the sources.
      \<^verbatim>\<open>pushToKey(parent, "replies", e)\<close> appends \<^verbatim>\<open>e\<close> to the list under the key
      \<^verbatim>\<open>replies\<close> of \<^verbatim>\<open>parent\<close>, creating the list when the key is absent.\<close>
  "pushToKey h parent e = h(parent := (h parent)\<lparr>replies := Some (replies_or_empty (h parent) @ [e])\<rparr>)"

subsection \<open>Feed building\<close>

text \<open>
  The \<^verbatim>\<open>while (true)\<close> loop of \<^verbatim>\<open>buildFeedChunk\<close>. It has no bound: when the parents map
  leads from an event back to itself it runs forever, which is the value \<open>None\<close>.
\<close>

partial_function (option) find_root ::
  "Deps \<Rightarrow> (string \<rightharpoonup> addr) \<Rightarrow> store \<Rightarrow> addr \<Rightarrow> (store \<times> addr) option" where
  "find_root deps ps h e =
     (case reply_target deps (h e) of
        None \<Rightarrow> Some (h, e)
      | Some parentId \<Rightarrow>
          (case ps parentId of
             None \<Rightarrow> Some (h, e)
           | Some parent \<Rightarrow>
               find_root deps ps
                 (if kind (h e) \<in> set (noteKinds deps) \<and>
                     find (\<lambda>r. id' (h r) = id' (h e)) (replies_or_empty (h parent)) = None
                  then pushToKey h parent e else h)
                 parent))"

fun map_roots ::
  "Deps \<Rightarrow> (string \<rightharpoonup> addr) \<Rightarrow> store \<Rightarrow> addr list \<Rightarrow> (store \<times> addr list) option" where
  "map_roots deps ps h [] = Some (h, [])"
| "map_roots deps ps h (e # es) =
     (case find_root deps ps h e of
        None \<Rightarrow> None
      | Some (h1, r) \<Rightarrow>
          (case map_roots deps ps h1 es of
             None \<Rightarrow> None
           | Some (h2, rs) \<Rightarrow> Some (h2, r # rs)))"

definition dedup_replies :: "store \<Rightarrow> addr \<Rightarrow> store" where
  "dedup_replies h e =
     (case replies (h e) of
        None \<Rightarrow> h
      | Some rs \<Rightarrow> h(e := (h e)\<lparr>replies := Some (uniqBy (\<lambda>r. id' (h r)) rs)\<rparr>))"

definition build_chunk ::
  "Deps \<Rightarrow> (string \<rightharpoonup> addr) \<Rightarrow> addr list \<Rightarrow> store \<Rightarrow> addr list
    \<Rightarrow> (store \<times> addr list) option" where
  "build_chunk deps ps shown h ns =
     (let seen = set (map (\<lambda>a. id' (h a)) shown) in
      case map_roots deps ps h ns of
        None \<Rightarrow> None
      | Some (h1, roots) \<Rightarrow>
          let cand = filter (\<lambda>e. \<not> (id' (h1 e) \<in> seen \<or> kind (h1 e) \<in> set (reactionKinds deps)))
                       (roots @ []);
              h2 = foldl dedup_replies h1 cand
          in Some (h2, sort_key (\<lambda>e. - created_at (h2 e)) (uniqBy (\<lambda>e. id' (h2 e)) cand)))"

definition buildFeedChunk ::
  "Deps \<Rightarrow> FeedLoader \<Rightarrow> addr list \<Rightarrow> (FeedLoader \<times> addr list) option" where
  "buildFeedChunk deps s ns =
     (case build_chunk deps (parents s) (notes' s) (heap s) ns of
        None \<Rightarrow> None
      | Some (h, chunk) \<Rightarrow> Some (s\<lparr>heap := h\<rparr>, chunk))"

definition addToFeed :: "Deps \<Rightarrow> FeedLoader \<Rightarrow> addr list \<Rightarrow> FeedLoader option" where
  "addToFeed deps s ns =
     (case buildFeedChunk deps s ns of
        None \<Rightarrow> None
      | Some (s1, chunk) \<Rightarrow>
          Some (s1\<lparr>notes' := uniqBy (\<lambda>a. id' (heap s1 a)) (notes' s1 @ chunk)\<rparr>))"

subsection \<open>Control and loading\<close>

definition discardEvents :: "Deps \<Rightarrow> FeedOpts \<Rightarrow> store \<Rightarrow> addr list \<Rightarrow> addr list" where
  "discardEvents deps opts h events =
     filter (\<lambda>e. if isEventMuted deps (h e) then False
                 else if shouldHideReplies opts \<and> reply_target deps (h e) \<noteq> None then False
                 else True) events"

definition addSubs :: "sub list \<Rightarrow> FeedLoader \<Rightarrow> FeedLoader" where
  "addSubs new s = s\<lparr>subs := subs s @ new\<rparr>"

definition on_close :: "sub \<Rightarrow> FeedLoader \<Rightarrow> FeedLoader" where
  \<comment> \<open>the listener that \<^verbatim>\<open>addSubs\<close> registers: \<^verbatim>\<open>this.subs = without([sub], this.subs)\<close>\<close>
  "on_close sub s = s\<lparr>subs := filter (\<lambda>x. x \<noteq> sub) (subs s)\<rparr>"

definition close_sub :: "Deps \<Rightarrow> FeedLoader \<Rightarrow> sub \<Rightarrow> FeedLoader" where
  \<comment> \<open>\<^verbatim>\<open>sub.close()\<close>, and the listener of \<^verbatim>\<open>addSubs\<close> where the handle fires it at once\<close>
  "close_sub deps s sub =
     (let s1 = s\<lparr>closed_subs := insert sub (closed_subs s)\<rparr>
      in if closeEmits deps sub then on_close sub s1 else s1)"

definition stop :: "Deps \<Rightarrow> FeedLoader \<Rightarrow> FeedLoader" where
  \<comment> \<open>the loop runs over the array that \<^verbatim>\<open>this.subs\<close> held when it started\<close>
  "stop deps s = foldl (close_sub deps) (s\<lparr>stopped := True\<rparr>) (subs s)"

definition deferOrphans ::
  "Deps \<Rightarrow> FeedOpts \<Rightarrow> FeedLoader \<Rightarrow> addr list \<Rightarrow> FeedLoader \<times> addr list" where
  "deferOrphans deps opts s ns =
     (if \<not> shouldLoadParents opts then (s, ns)
      else
        let orphan = (\<lambda>e. case reply_target deps (heap s e) of
                             None \<Rightarrow> False
                           | Some parentId \<Rightarrow> parents s parentId = None);
            defer = filter orphan ns;
            ok = filter (\<lambda>e. \<not> orphan e) ns
        in (s\<lparr>timers := timers s @ [(1500, defer)]\<rparr>, ok))"

definition deferAncient ::
  "Deps \<Rightarrow> int \<Rightarrow> FeedLoader \<Rightarrow> addr list \<Rightarrow> FeedLoader \<times> addr list" where
  "deferAncient deps now s ns =
     (let since' = now - guessFilterDelta deps;
          defer = filter (\<lambda>e. created_at (heap s e) < since') ns;
          ok = filter (\<lambda>e. \<not> created_at (heap s e) < since') ns
      in (s\<lparr>timers := timers s @ [(4000, defer)]\<rparr>, ok))"

text \<open>
  \<^verbatim>\<open>load(n)\<close> from the point where \<^verbatim>\<open>await this.ready\<close> resumes; the rest of the method
  runs without interruption. \<open>taken\<close> is what \<^verbatim>\<open>this.cursor.take(n)\<close> returned and \<open>now\<close>
  what \<^verbatim>\<open>now()\<close> returns in \<^verbatim>\<open>deferAncient\<close>.
\<close>

definition load ::
  "Deps \<Rightarrow> FeedOpts \<Rightarrow> sub list \<times> addr list \<Rightarrow> int \<Rightarrow> FeedLoader \<Rightarrow> FeedLoader option" where
  "load deps opts taken now s =
     (let ns = discardEvents deps opts (heap s) (snd taken);
          s1 = addSubs (fst taken) s
      in if shouldDefer opts then
           let deferred' = deferred s1;
               s2 = s1\<lparr>deferred := []\<rparr>;
               (s3, ok1) = deferOrphans deps opts s2 (ns @ deferred');
               (s4, ok2) = deferAncient deps now s3 ok1
           in addToFeed deps s4 ok2
         else addToFeed deps s1 ns)"

definition loadBuffer :: "Deps \<Rightarrow> FeedLoader \<Rightarrow> FeedLoader option" where
  "loadBuffer deps s =
     (case addToFeed deps s (buffer s) of
        None \<Rightarrow> None
      | Some s1 \<Rightarrow> Some (s1\<lparr>buffer := []\<rparr>))"

definition fire :: "Deps \<Rightarrow> nat \<Rightarrow> FeedLoader \<Rightarrow> FeedLoader option" where
  \<comment> \<open>the pending callback number \<open>i\<close> runs: \<^verbatim>\<open>() => this.addToFeed(defer)\<close>\<close>
  "fire deps i s =
     (if i < length (timers s)
      then addToFeed deps (s\<lparr>timers := take i (timers s) @ drop (Suc i) (timers s)\<rparr>)
             (snd (timers s ! i))
      else Some s)"

definition on_live_batch :: "Deps \<Rightarrow> FeedOpts \<Rightarrow> addr list \<Rightarrow> FeedLoader \<Rightarrow> FeedLoader" where
  \<comment> \<open>the \<^verbatim>\<open>onEvent\<close> of the live subscription; \<^verbatim>\<open>loadParents\<close> only starts a request\<close>
  "on_live_batch deps opts events s =
     s\<lparr>buffer := buffer s @ discardEvents deps opts (heap s) events\<rparr>"

definition on_parents_batch :: "Deps \<Rightarrow> FeedOpts \<Rightarrow> addr list \<Rightarrow> FeedLoader \<Rightarrow> FeedLoader" where
  \<comment> \<open>the \<^verbatim>\<open>onEvent\<close> of the request that \<^verbatim>\<open>loadParents\<close> makes\<close>
  "on_parents_batch deps opts events s =
     s\<lparr>parents := foldl (\<lambda>m e. m(id' (heap s e) \<mapsto> e)) (parents s)
                     (discardEvents deps opts (heap s) events)\<rparr>"

text \<open>
  Everything that can happen to a loader, one action per entry point or callback, and a
  run of actions. A run is \<open>None\<close> when one of its actions does not return.
\<close>

datatype action =
    Load nat "sub list \<times> addr list" int
  | LoadBuffer
  | Fire nat
  | Stop
  | LiveBatch "addr list"
  | ParentsBatch "addr list"
  | SubClosed sub

fun step :: "Deps \<Rightarrow> FeedOpts \<Rightarrow> action \<Rightarrow> FeedLoader \<Rightarrow> FeedLoader option" where
  "step deps opts (Load n taken now) s = load deps opts taken now s"
| "step deps opts LoadBuffer s = loadBuffer deps s"
| "step deps opts (Fire i) s = fire deps i s"
| "step deps opts Stop s = Some (stop deps s)"
| "step deps opts (LiveBatch events) s = Some (on_live_batch deps opts events s)"
| "step deps opts (ParentsBatch events) s = Some (on_parents_batch deps opts events s)"
| "step deps opts (SubClosed sub) s = Some (on_close sub s)"

fun run :: "Deps \<Rightarrow> FeedOpts \<Rightarrow> action list \<Rightarrow> FeedLoader \<Rightarrow> FeedLoader option" where
  "run deps opts [] s = Some s"
| "run deps opts (a # as) s =
     (case step deps opts a s of None \<Rightarrow> None | Some s1 \<Rightarrow> run deps opts as s1)"

section \<open>Notions used in the statements\<close>

definition cnt :: "scores \<Rightarrow> string \<Rightarrow> nat" where
  \<comment> \<open>the membership count recorded for a key, \<open>0\<close> when the key has no entry\<close>
  "cnt sc h = (case map_of sc h of None \<Rightarrow> 0 | Some v \<Rightarrow> count v)"

definition bounded_scores :: "scores \<Rightarrow> bool" where
  "bounded_scores sc = (\<forall>(k, v) \<in> set sc. score v \<le> real (count v))"

definition ids :: "store \<Rightarrow> addr list \<Rightarrow> string list" where
  "ids h as = map (\<lambda>a. id' (h a)) as"

definition only_replies :: "store \<Rightarrow> store \<Rightarrow> bool" where
  \<comment> \<open>the second store differs from the first in \<^verbatim>\<open>replies\<close> fields only\<close>
  "only_replies h h' = (\<forall>a. \<exists>rs. h' a = (h a)\<lparr>replies := rs\<rparr>)"

definition replies_distinct :: "store \<Rightarrow> bool" where
  \<comment> \<open>no id appears twice within one object's replies\<close>
  "replies_distinct h = (\<forall>p. distinct (ids h (replies_or_empty (h p))))"

definition feed_inv :: "Deps \<Rightarrow> FeedLoader \<Rightarrow> bool" where
  "feed_inv deps s =
     (distinct (ids (heap s) (notes' s)) \<and>
      (\<forall>a \<in> set (notes' s). kind (heap s a) \<notin> set (reactionKinds deps)) \<and>
      replies_distinct (heap s))"

definition descending :: "store \<Rightarrow> addr list \<Rightarrow> bool" where
  \<comment> \<open>sorted by \<^verbatim>\<open>created_at\<close>, newest first, equal times allowed\<close>
  "descending h as = sorted (map (\<lambda>a. - created_at (h a)) as)"

text \<open>
  The two kinds of writes to the store that feed building makes: the guarded
  \<^verbatim>\<open>pushToKey\<close> of the loop, and the deduplication of an entry's replies.
\<close>

inductive heap_step :: "Deps \<Rightarrow> store \<Rightarrow> store \<Rightarrow> bool" for deps :: Deps where
  push: "kind (h e) \<in> set (noteKinds deps) \<Longrightarrow>
         find (\<lambda>r. id' (h r) = id' (h e)) (replies_or_empty (h p)) = None \<Longrightarrow>
         heap_step deps h (pushToKey h p e)"
| dedup: "heap_step deps h (dedup_replies h e)"

definition unresolved :: "Deps \<Rightarrow> (string \<rightharpoonup> addr) \<Rightarrow> store \<Rightarrow> addr \<Rightarrow> bool" where
  \<comment> \<open>the loop of \<^verbatim>\<open>buildFeedChunk\<close> stops at this event: no reply target, or an unknown one\<close>
  "unresolved deps ps h e =
     (case reply_target deps (h e) of None \<Rightarrow> True | Some parentId \<Rightarrow> ps parentId = None)"

definition parents_ok :: "FeedLoader \<Rightarrow> bool" where
  \<comment> \<open>the parents map is keyed by the id of the object it holds: \<^verbatim>\<open>this.parents.set(e.id, e)\<close>\<close>
  "parents_ok s = (\<forall>parentId p. parents s parentId = Some p \<longrightarrow> id' (heap s p) = parentId)"

definition ranked :: "Deps \<Rightarrow> (addr \<Rightarrow> nat) \<Rightarrow> store \<Rightarrow> bool" where
  \<comment> \<open>the reply references are well founded: an object that carries the id an event replies
      to has a smaller rank than the event\<close>
  "ranked deps rk h =
     (\<forall>e p. reply_target deps (h e) = Some (id' (h p)) \<longrightarrow> rk p < rk e)"

definition construct :: "int \<Rightarrow> sub list \<Rightarrow> store \<Rightarrow> FeedLoader" where
  \<comment> \<open>the loader as the constructor leaves it; \<open>opened\<close> are the handles of the live
      subscription, if any, and of \<^verbatim>\<open>cursor.load(50)\<close>\<close>
  "construct now opened h =
     addSubs opened \<lparr>since = now, stopped = False, subs = [], buffer = [], notes' = [],
       parents = Map.empty, deferred = [], heap = h, timers = [], closed_subs = {}\<rparr>"

definition example_env :: Env where
  "example_env = \<lparr>relay_limit = 3, user_read_relays = [], default_relays = [],
     quality = (\<lambda>u. if u = ''wss://slow.example/'' then Some 0.2 else None)\<rparr>"

text \<open>
  A small loader for the concrete runs below. \<^verbatim>\<open>findReplyId\<close> reads the first tag, when it
  is an \<^verbatim>\<open>e\<close> tag. The store holds a note \<^verbatim>\<open>p\<close>, a reply \<^verbatim>\<open>a\<close> to it, a reaction \<^verbatim>\<open>r\<close> to it,
  and two notes \<^verbatim>\<open>b\<close> and \<^verbatim>\<open>c\<close> without a parent, at the addresses 0 to 4.
\<close>

definition ev :: "string \<Rightarrow> int \<Rightarrow> int \<Rightarrow> string list list \<Rightarrow> DisplayEvent" where
  "ev i k t tg = \<lparr>id' = i, pubkey = ''author'', kind = k, created_at = t, tags = tg,
     content = [], replies = None\<rparr>"

definition example_deps :: Deps where
  "example_deps = \<lparr>
     findReplyId = (\<lambda>tg. case tg of [] \<Rightarrow> None
                         | t # _ \<Rightarrow> if take 1 t = [''e''] \<and> length t = 2 then Some (t ! 1) else None),
     noteKinds = [1, 30023], reactionKinds = [7, 9735],
     isEventMuted = (\<lambda>_. False), guessFilterDelta = 3600, closeEmits = (\<lambda>_. False)\<rparr>"

definition example_opts :: FeedOpts where
  "example_opts = \<lparr>relays = [''wss://relay.example/''], shouldDefer = True,
     shouldListen = True, shouldHideReplies = False, shouldLoadParents = True\<rparr>"

definition example_store :: store where
  "example_store = (\<lambda>_. ev ''other'' 1 0 [])
     (0 := ev ''p'' 1 50 [], 1 := ev ''a'' 1 100 [[''e'', ''p'']],
      2 := ev ''r'' 7 110 [[''e'', ''p'']], 3 := ev ''b'' 1 200 [], 4 := ev ''c'' 1 10 [])"

definition example_loader :: FeedLoader where
  "example_loader = construct 0 [5] example_store"

section \<open>Properties of the relay hints\<close>

subsection \<open>Shareability\<close>

lemma match_lit:
  "match_here (lit l @ ps) s \<Longrightarrow> \<exists>r. s = l @ r \<and> match_here ps r"
  by (induction l arbitrary: s) (auto simp: lit_def split: list.splits)

lemma count_matches_infix:
  "l \<noteq> [] \<Longrightarrow> 1 \<le> count_matches l (pre @ l @ post)"
proof (induction pre)
  case Nil
  then show ?case by (cases l) auto
next
  case (Cons c pre)
  then show ?case by simp
qed

text \<open>
  The second conjunct of \<^verbatim>\<open>isShareableRelay\<close> never reads the length of \<^verbatim>\<open>null\<close>: where the
  first pattern matches, the global match of \<^verbatim>\<open>://\<close> finds at least one occurrence.
\<close>

lemma first_pattern_has_separator:
  assumes "match_here (lit ''ws'' @ [((\<lambda>c. c = CHR ''s''), Opt)] @ lit ''://''
         @ [(any_char, Plus)] @ lit ''.'' @ [(any_char, Plus)]) url"
  shows "1 \<le> count_matches ''://'' url"
proof -
  let ?rest = "[(any_char, Plus)] @ lit ''.'' @ [(any_char, Plus)]"
  obtain r where r: "url = ''ws'' @ r"
    "match_here (((\<lambda>c. c = CHR ''s''), Opt) # lit ''://'' @ ?rest) r"
    using match_lit[OF assms] by auto
  from r(2) have "(\<exists>r'. r = CHR ''s'' # r' \<and> match_here (lit ''://'' @ ?rest) r')
      \<or> match_here (lit ''://'' @ ?rest) r"
    by (auto split: list.splits)
  then obtain pre r' where "url = pre @ ''://'' @ r'"
  proof
    assume "\<exists>r'. r = CHR ''s'' # r' \<and> match_here (lit ''://'' @ ?rest) r'"
    then obtain r' where a: "r = CHR ''s'' # r'" "match_here (lit ''://'' @ ?rest) r'" by blast
    from match_lit[OF a(2)] obtain t where "r' = ''://'' @ t" by blast
    then have "url = ''wss'' @ ''://'' @ t" using r(1) a(1) by simp
    then show ?thesis using that by blast
  next
    assume a: "match_here (lit ''://'' @ ?rest) r"
    from match_lit[OF a] obtain t where "r = ''://'' @ t" by blast
    then have "url = ''ws'' @ ''://'' @ t" using r(1) by simp
    then show ?thesis using that by blast
  qed
  then show ?thesis using count_matches_infix[of "''://''" pre r'] by simp
qed

lemma shareable_relay_example: "isShareableRelay ''wss://relay.example/''"
  by (simp add: isShareableRelay_def lit_def any_char_def line_terminator_def digit_def
      whitespace_def)

lemma shareable_slow_example: "isShareableRelay ''wss://slow.example/''"
  by (simp add: isShareableRelay_def lit_def any_char_def line_terminator_def digit_def
      whitespace_def)

lemma insecure_not_shareable: "\<not> isShareableRelay ''ws://insecure.example/''"
  by (simp add: isShareableRelay_def lit_def)

subsection \<open>The selector\<close>

lemma select_loop_ok:
  "select_loop env limit urls seen ok bad = (ok', bad') \<Longrightarrow>
   set ok' \<subseteq> set ok \<union> {u \<in> set urls. isShareableRelay u \<and> \<not> relayIsLowQuality env u}"
  by (induction env limit urls seen ok bad rule: select_loop.induct)
     (auto simp: Let_def split: if_splits)

lemma select_loop_bad:
  "select_loop env limit urls seen ok bad = (ok', bad') \<Longrightarrow>
   set bad' \<subseteq> set bad \<union> {u \<in> set urls. isShareableRelay u \<and> relayIsLowQuality env u}"
  by (induction env limit urls seen ok bad rule: select_loop.induct)
     (auto simp: Let_def split: if_splits)

lemma length_slice0: "0 \<le> k \<Longrightarrow> length (slice0 k xs) \<le> nat k"
  by (simp add: slice0_def)

lemma slice0_take: "\<exists>n. slice0 k xs = take n xs"
  by (auto simp: slice0_def)

text \<open>
  The shape of every result of the selector: a prefix of the healthy shareable candidates
  followed by the low-quality shareable ones, all of them drawn from the chained sequence.
\<close>

lemma selectHints_shape:
  "\<exists>ok bad n. selectHints env hints limit = take n (ok @ bad) \<and>
     (\<forall>u \<in> set ok. u \<in> set (hints @ user_read_relays env @ default_relays env) \<and>
        isShareableRelay u \<and> \<not> relayIsLowQuality env u) \<and>
     (\<forall>u \<in> set bad. u \<in> set (hints @ user_read_relays env @ default_relays env) \<and>
        isShareableRelay u \<and> relayIsLowQuality env u)"
proof -
  let ?limit = "or_default limit (relay_limit env)"
  let ?urls = "hints @ user_read_relays env @ default_relays env"
  obtain ok bad where sl: "select_loop env ?limit ?urls {} [] [] = (ok, bad)"
    by (cases "select_loop env ?limit ?urls {} [] []")
  obtain n where n: "slice0 ?limit (ok @ bad) = take n (ok @ bad)"
    using slice0_take by blast
  have "selectHints env hints limit = take n (ok @ bad)"
    using sl n by (simp add: selectHints_def Let_def)
  moreover have "\<forall>u \<in> set ok. u \<in> set ?urls \<and> isShareableRelay u \<and> \<not> relayIsLowQuality env u"
    using select_loop_ok[OF sl] by auto
  moreover have "\<forall>u \<in> set bad. u \<in> set ?urls \<and> isShareableRelay u \<and> relayIsLowQuality env u"
    using select_loop_bad[OF sl] by auto
  ultimately show ?thesis by blast
qed

lemma selectHints_subset:
  "u \<in> set (selectHints env hints limit) \<Longrightarrow>
   u \<in> set (hints @ user_read_relays env @ default_relays env) \<and> isShareableRelay u"
proof -
  assume u: "u \<in> set (selectHints env hints limit)"
  obtain ok bad n where sh: "selectHints env hints limit = take n (ok @ bad)"
    "\<forall>u \<in> set ok. u \<in> set (hints @ user_read_relays env @ default_relays env) \<and>
        isShareableRelay u \<and> \<not> relayIsLowQuality env u"
    "\<forall>u \<in> set bad. u \<in> set (hints @ user_read_relays env @ default_relays env) \<and>
        isShareableRelay u \<and> relayIsLowQuality env u"
    using selectHints_shape by blast
  from u sh(1) have "u \<in> set (ok @ bad)" by (auto dest: in_set_takeD)
  then show ?thesis using sh(2,3) by auto
qed

lemma selectHints_length: "1 \<le> k \<Longrightarrow> length (selectHints env hints (Some k)) \<le> nat k"
  by (simp add: selectHints_def Let_def or_default_def length_slice0 split: prod.splits)

subsection \<open>Empty input\<close>

text \<open>
  Claim C6, as the code has it. \<^verbatim>\<open>mergeHints\<close> of no candidate list is the empty list,
  whatever the limit. \<^verbatim>\<open>selectHints\<close> always scans the user's read relays and the default
  relays after its candidates, so for an empty candidate sequence it returns the empty
  list when neither of the two holds a shareable URL (in particular when both are empty).
\<close>

theorem empty_input_results:
  "mergeHints env [] limit = [] \<and>
   ((\<forall>u \<in> set (user_read_relays env @ default_relays env). \<not> isShareableRelay u)
      \<longrightarrow> selectHints env [] limit' = [])"
proof -
  have "mergeHints env [] limit = []"
    by (simp add: mergeHints_def weighted_def entries_def slice0_def)
  moreover have "selectHints env [] limit' = []"
    if "\<forall>u \<in> set (user_read_relays env @ default_relays env). \<not> isShareableRelay u"
  proof (rule ccontr)
    assume "selectHints env [] limit' \<noteq> []"
    then obtain u where "u \<in> set (selectHints env [] limit')"
      by (cases "selectHints env [] limit'") auto
    from selectHints_subset[OF this] that show False by auto
  qed
  ultimately show ?thesis by blast
qed

theorem empty_input_results_witness:
  "mergeHints (example_env\<lparr>user_read_relays := [''ws://insecure.example/'']\<rparr>) [] None = [] \<and>
   selectHints (example_env\<lparr>user_read_relays := [''ws://insecure.example/'']\<rparr>) [] (Some 3) = []"
  using empty_input_results[of "example_env\<lparr>user_read_relays := [''ws://insecure.example/'']\<rparr>"
      None "Some 3"]
  by (simp add: example_env_def insecure_not_shareable)

text \<open>
  With a shareable default relay, the selector applied to an empty candidate sequence
  returns that relay, not the empty list.
\<close>

theorem selector_empty_input_counterexample:
  "selectHints (example_env\<lparr>default_relays := [''wss://relay.example/'']\<rparr>) [] (Some 3)
     = [''wss://relay.example/'']"
  by (simp add: selectHints_def or_default_def example_env_def shareable_relay_example
      relayIsLowQuality_def slice0_def)

subsection \<open>Merging, then selecting\<close>

lemma merge_single_example:
  "mergeHints example_env [[''wss://relay.example/'']] None = [''wss://relay.example/'']"
  by (simp add: mergeHints_def weighted_def entries_def add_group_def add_hint_def
      proto_keys_def is_array_index_def digit_def or_default_def slice0_def example_env_def)

text \<open>
  Claim C7, for a limit of at least one. Whatever the candidate lists and the limit of the
  merge, selecting from the merged list with limit \<open>k \<ge> 1\<close> returns at most \<open>k\<close> URLs, and
  every one of them satisfies \<^verbatim>\<open>isShareableRelay\<close>.
\<close>

theorem merge_then_select_bounded:
  assumes "1 \<le> k"
  shows "length (selectHints env (mergeHints env groups m) (Some k)) \<le> nat k \<and>
         (\<forall>u \<in> set (selectHints env (mergeHints env groups m) (Some k)). isShareableRelay u)"
proof
  show "length (selectHints env (mergeHints env groups m) (Some k)) \<le> nat k"
    using assms by (rule selectHints_length)
  show "\<forall>u \<in> set (selectHints env (mergeHints env groups m) (Some k)). isShareableRelay u"
    using selectHints_subset by blast
qed

theorem merge_then_select_bounded_witness:
  "length (selectHints example_env (mergeHints example_env [[''wss://relay.example/'']] None)
      (Some 1)) \<le> nat 1 \<and>
   list_all isShareableRelay
     (selectHints example_env (mergeHints example_env [[''wss://relay.example/'']] None) (Some 1))"
  using merge_then_select_bounded[of 1 example_env "[[''wss://relay.example/'']]" None]
  by (simp add: list_all_iff)

text \<open>
  A limit of \<open>0\<close> is falsy, so \<^verbatim>\<open>selectHints\<close> replaces it by the setting \<^verbatim>\<open>relay_limit\<close>:
  with limit \<open>0\<close> and a setting of \<open>3\<close> one URL comes back.
\<close>

theorem limit_zero_counterexample:
  "selectHints example_env (mergeHints example_env [[''wss://relay.example/'']] None) (Some 0)
     = [''wss://relay.example/'']"
  unfolding merge_single_example
  by (simp add: selectHints_def or_default_def example_env_def shareable_relay_example
      relayIsLowQuality_def slice0_def)

subsection \<open>Healthy relays first\<close>

text \<open>
  Claim C8. In a result of the selector, a URL that is not low-quality stands at a smaller
  position than any URL that is low-quality, whatever their order among the candidates.
\<close>

theorem healthy_before_low_quality:
  assumes "i < length (selectHints env hints limit)"
    and "j < length (selectHints env hints limit)"
    and "\<not> relayIsLowQuality env (selectHints env hints limit ! i)"
    and "relayIsLowQuality env (selectHints env hints limit ! j)"
  shows "i < j"
proof -
  obtain ok bad n where sh: "selectHints env hints limit = take n (ok @ bad)"
    "\<forall>u \<in> set ok. u \<in> set (hints @ user_read_relays env @ default_relays env) \<and>
        isShareableRelay u \<and> \<not> relayIsLowQuality env u"
    "\<forall>u \<in> set bad. u \<in> set (hints @ user_read_relays env @ default_relays env) \<and>
        isShareableRelay u \<and> relayIsLowQuality env u"
    using selectHints_shape by blast
  have i: "i < length (ok @ bad)" "selectHints env hints limit ! i = (ok @ bad) ! i"
    using assms(1) unfolding sh(1) by (simp_all del: take_append)
  have j: "j < length (ok @ bad)" "selectHints env hints limit ! j = (ok @ bad) ! j"
    using assms(2) unfolding sh(1) by (simp_all del: take_append)
  have "i < length ok"
  proof (rule ccontr)
    assume "\<not> i < length ok"
    then have "(ok @ bad) ! i \<in> set bad" using i(1) by (simp add: nth_append)
    then show False using sh(3) assms(3) i(2) by auto
  qed
  moreover have "length ok \<le> j"
  proof (rule ccontr)
    assume "\<not> length ok \<le> j"
    then have "(ok @ bad) ! j \<in> set ok" by (simp add: nth_append)
    then show False using sh(2) assms(4) j(2) by auto
  qed
  ultimately show ?thesis by simp
qed

lemma select_slow_first_example:
  "selectHints example_env [''wss://slow.example/'', ''wss://relay.example/''] (Some 3)
     = [''wss://relay.example/'', ''wss://slow.example/'']"
  by (simp add: selectHints_def or_default_def example_env_def shareable_relay_example
      shareable_slow_example relayIsLowQuality_def slice0_def)

theorem healthy_before_low_quality_witness:
  "selectHints example_env [''wss://slow.example/'', ''wss://relay.example/''] (Some 3)
     = [''wss://relay.example/'', ''wss://slow.example/''] \<and>
   \<not> relayIsLowQuality example_env ''wss://relay.example/'' \<and>
   relayIsLowQuality example_env ''wss://slow.example/'' \<and> (0::nat) < 1"
  using healthy_before_low_quality[of 0 example_env
      "[''wss://slow.example/'', ''wss://relay.example/'']" "Some 3" 1]
  unfolding select_slow_first_example
  by (simp add: relayIsLowQuality_def example_env_def)

subsection \<open>The scorer\<close>

lemma cnt_bump: "cnt (bump s k sc) h = cnt sc h + (if k = h then 1 else 0)"
  by (induction sc) (auto simp: cnt_def)

lemma cnt_add_hint:
  "h \<notin> set proto_keys \<Longrightarrow> cnt (add_hint len sc (k, i)) h = cnt sc h + (if k = h then 1 else 0)"
  by (auto simp: add_hint_def cnt_bump)

lemma cnt_foldl_add_hint:
  "h \<notin> set proto_keys \<Longrightarrow>
   cnt (foldl (add_hint len) sc kis) h = cnt sc h + count_list (map fst kis) h"
proof (induction kis arbitrary: sc)
  case Nil
  then show ?case by simp
next
  case (Cons ki kis)
  obtain k i where ki: "ki = (k, i)" by (cases ki)
  show ?case using Cons by (simp add: ki cnt_add_hint)
qed

lemma map_fst_zip_upt: "map fst (zip g [0 ..< length g]) = g"
  by (simp add: map_fst_zip)

lemma cnt_add_group:
  "h \<notin> set proto_keys \<Longrightarrow> cnt (add_group sc g) h = cnt sc h + count_list g h"
  by (simp add: add_group_def cnt_foldl_add_hint map_fst_zip_upt)

lemma cnt_groups:
  "h \<notin> set proto_keys \<Longrightarrow>
   cnt (foldl add_group sc groups) h = cnt sc h + count_list (concat groups) h"
  by (induction groups arbitrary: sc) (simp_all add: cnt_add_group)

lemma bounded_bump:
  "bounded_scores sc \<Longrightarrow> s \<le> 1 \<Longrightarrow> bounded_scores (bump s k sc)"
  by (induction sc) (auto simp: bounded_scores_def split: if_splits)

lemma contribution_le_1: "i < len \<Longrightarrow> 1 / real (i + 1) / real len \<le> 1"
proof -
  assume "i < len"
  then have "1 \<le> real (i + 1) * real len"
    by (metis One_nat_def Suc_leI add_gr_0 less_nat_zero_code mult_le_mono nat_mult_1 
          neq0_conv of_nat_1 of_nat_le_iff of_nat_mult zero_less_one)
  then show ?thesis by (simp add: divide_le_eq)
qed

lemma bounded_foldl_add_hint:
  "bounded_scores sc \<Longrightarrow> \<forall>(k, i) \<in> set kis. i < len \<Longrightarrow>
   bounded_scores (foldl (add_hint len) sc kis)"
proof (induction kis arbitrary: sc)
  case Nil
  then show ?case by simp
next
  case (Cons ki kis)
  obtain k i where ki: "ki = (k, i)" by (cases ki)
  have "i < len" using Cons.prems(2) ki by simp
  then have "1 / real (i + 1) / real len \<le> 1"
    by (rule contribution_le_1)
  then have "bounded_scores (bump (1 / real (i + 1) / real len) k sc)"
    using Cons.prems(1) by (rule bounded_bump[rotated])
  then have "bounded_scores (add_hint len sc (k, i))"
    using Cons.prems(1) unfolding add_hint_def by (simp del: of_nat_add)
  then show ?case using Cons ki by simp
qed

lemma bounded_add_group: "bounded_scores sc \<Longrightarrow> bounded_scores (add_group sc g)"
  unfolding add_group_def
  by (rule bounded_foldl_add_hint) (auto dest: set_zip_rightD)

lemma bounded_groups: "bounded_scores sc \<Longrightarrow> bounded_scores (foldl add_group sc groups)"
  by (induction groups arbitrary: sc) (simp_all add: bounded_add_group)

lemma count_list_top:
  "\<forall>g \<in> set groups. g \<noteq> [] \<and> hd g = u \<Longrightarrow> length groups \<le> count_list (concat groups) u"
proof (induction groups)
  case Nil
  then show ?case by simp
next
  case (Cons g groups)
  then obtain t where "g = u # t" by (cases g) auto
  then show ?case using Cons by simp
qed

lemma map_of_map_snd:
  "map_of (map (\<lambda>(k, v). (k, f v)) xs) h = map_option f (map_of xs h)"
  by (induction xs) auto

lemma map_of_weighted:
  "map_of (weighted groups) h =
   map_option (final_weight (length groups)) (map_of (foldl add_group [] groups) h)"
  by (simp add: weighted_def map_of_map_snd)

lemma cnt_Some: "0 < cnt sc h \<Longrightarrow> \<exists>v. map_of sc h = Some v \<and> count v = cnt sc h"
  by (auto simp: cnt_def split: option.splits)

lemma bounded_lookup: "bounded_scores sc \<Longrightarrow> map_of sc h = Some v \<Longrightarrow> score v \<le> real (count v)"
  by (auto simp: bounded_scores_def dest: map_of_SomeD)

lemma weight_all_le: 
  assumes "1 \<le> n" "n \<le> count v" "score v \<le> real (count v)"
  shows "final_weight n v \<le> ln 2"
proof -
  have "real n / real (count v) \<le> 1" using assms by (simp add: divide_le_eq)
  moreover have "0 < real n / real (count v)" using assms by simp
  ultimately have a: "ln (real n / real (count v)) \<le> 0" by simp
  have "exp (score v - real (count v)) \<le> 1" using assms by simp
  then have "ln (1 + exp (score v - real (count v))) \<le> ln 2"
    by (simp add: add_pos_pos)
  then show ?thesis using a by (simp add: final_weight_def)
qed

lemma weight_once_gt:
  assumes "2 \<le> n" "count v = 1"
  shows "ln 2 < final_weight n v"
proof -
  have a: "ln 2 \<le> ln (real n)" using assms by simp
  have b: "0 < ln (1 + exp (score v - 1))"
    by (simp add: ln_gt_zero)
  have "final_weight n v = ln (real n) + ln (1 + exp (score v - 1))"
    using assms(2) by (simp add: final_weight_def)
  then show ?thesis using a b by linarith
qed

text \<open>
  Claim C9, for at least two lists and a URL that occurs once. When there are at least two
  candidate lists, a URL at position 0 of every list receives a strictly smaller final
  weight than a URL that occurs exactly once in the whole collection. (Neither URL names a
  property of \<^verbatim>\<open>Object.prototype\<close>, for which no score is recorded.)
\<close>

theorem consensus_beats_single:
  assumes "2 \<le> length groups"
    and "\<forall>g \<in> set groups. g \<noteq> [] \<and> hd g = u"
    and "count_list (concat groups) v = 1"
    and "u \<notin> set proto_keys" and "v \<notin> set proto_keys"
  shows "\<exists>wu wv. map_of (weighted groups) u = Some wu \<and> map_of (weighted groups) v = Some wv
           \<and> wu < wv"
proof -
  let ?sc = "foldl add_group [] groups"
  have b: "bounded_scores ?sc" by (rule bounded_groups) (simp add: bounded_scores_def)
  have z: "cnt [] h = 0" for h by (simp add: cnt_def)
  have cu: "cnt ?sc u = count_list (concat groups) u"
    using cnt_groups[OF assms(4), of "[]" groups] by (simp add: z)
  have cv: "cnt ?sc v = 1"
    using cnt_groups[OF assms(5), of "[]" groups] assms(3) by (simp add: z)
  have nu: "length groups \<le> cnt ?sc u" using count_list_top[OF assms(2)] cu by simp
  then obtain su where su: "map_of ?sc u = Some su" "count su = cnt ?sc u"
    using cnt_Some[of ?sc u] assms(1) by auto
  obtain sv where sv: "map_of ?sc v = Some sv" "count sv = 1"
    using cnt_Some[of ?sc v] cv by auto
  have "final_weight (length groups) su \<le> ln 2"
    using assms(1) nu su bounded_lookup[OF b su(1)] by (intro weight_all_le) auto
  moreover have "ln 2 < final_weight (length groups) sv"
    using assms(1) sv(2) by (rule weight_once_gt)
  ultimately have "final_weight (length groups) su < final_weight (length groups) sv" by simp
  then show ?thesis using su(1) sv(1) by (simp add: map_of_weighted)
qed

theorem consensus_beats_single_witness:
  "\<exists>wu wv.
     map_of (weighted [[''wss://relay.example/'', ''wss://slow.example/''],
                       [''wss://relay.example/'']]) ''wss://relay.example/'' = Some wu \<and>
     map_of (weighted [[''wss://relay.example/'', ''wss://slow.example/''],
                       [''wss://relay.example/'']]) ''wss://slow.example/'' = Some wv \<and>
     wu < wv"
  using consensus_beats_single[of "[[''wss://relay.example/'', ''wss://slow.example/''],
      [''wss://relay.example/'']]" "''wss://relay.example/''" "''wss://slow.example/''"]
  by (simp add: proto_keys_def)

text \<open>
  With a single list \<^verbatim>\<open>[u, v]\<close> the top URL \<^verbatim>\<open>u\<close> receives the larger weight, and so it
  does against a URL that occurs twice in one list of \<^verbatim>\<open>[u, v, v]\<close>, \<^verbatim>\<open>[u]\<close>.
\<close>

lemma weight_increases_with_score:
  "a < b \<Longrightarrow> final_weight n \<lparr>score = a, count = c\<rparr> < final_weight n \<lparr>score = b, count = c\<rparr>"
  by (simp add: final_weight_def add_pos_pos)

theorem top_of_every_list_counterexample:
  "map_of (weighted [[''wss://relay.example/'', ''wss://slow.example/'']]) ''wss://relay.example/''
     = Some (final_weight 1 \<lparr>score = 1 / 2, count = 1\<rparr>) \<and>
   map_of (weighted [[''wss://relay.example/'', ''wss://slow.example/'']]) ''wss://slow.example/''
     = Some (final_weight 1 \<lparr>score = 1 / 4, count = 1\<rparr>) \<and>
   final_weight 1 \<lparr>score = 1 / 4, count = 1\<rparr> < final_weight 1 \<lparr>score = 1 / 2, count = 1\<rparr> \<and>
   map_of (weighted [[''wss://relay.example/'', ''wss://slow.example/'', ''wss://slow.example/''],
                     [''wss://relay.example/'']]) ''wss://relay.example/''
     = Some (final_weight 2 \<lparr>score = 4 / 3, count = 2\<rparr>) \<and>
   map_of (weighted [[''wss://relay.example/'', ''wss://slow.example/'', ''wss://slow.example/''],
                     [''wss://relay.example/'']]) ''wss://slow.example/''
     = Some (final_weight 2 \<lparr>score = 5 / 18, count = 2\<rparr>) \<and>
   final_weight 2 \<lparr>score = 5 / 18, count = 2\<rparr> < final_weight 2 \<lparr>score = 4 / 3, count = 2\<rparr>"
proof -
  have a: "foldl add_group [] [[''wss://relay.example/'', ''wss://slow.example/'']] =
      [(''wss://relay.example/'', \<lparr>score = 1 / 2, count = 1\<rparr>),
       (''wss://slow.example/'', \<lparr>score = 1 / 4, count = 1\<rparr>)]"
    by (simp add: add_group_def add_hint_def proto_keys_def upt_rec)
  have b: "foldl add_group []
        [[''wss://relay.example/'', ''wss://slow.example/'', ''wss://slow.example/''],
         [''wss://relay.example/'']] =
      [(''wss://relay.example/'', \<lparr>score = 4 / 3, count = 2\<rparr>),
       (''wss://slow.example/'', \<lparr>score = 5 / 18, count = 2\<rparr>)]"
    by (simp add: add_group_def add_hint_def proto_keys_def upt_rec)
  have c: "final_weight 1 \<lparr>score = 1 / 4, count = 1\<rparr> < final_weight 1 \<lparr>score = 1 / 2, count = 1\<rparr>"
    by (rule weight_increases_with_score) simp
  have d: "final_weight 2 \<lparr>score = 5 / 18, count = 2\<rparr> < final_weight 2 \<lparr>score = 4 / 3, count = 2\<rparr>"
    by (rule weight_increases_with_score) simp
  show ?thesis
    unfolding weighted_def a b using c d by (simp add: numeral_2_eq_2)
qed

subsection \<open>The scenario of two lists in different orders\<close>

text \<open>
  For any three distinct keys that are neither inherited property names nor array indices,
  and a setting of at least three, the merge of the two orders puts the common head last.
\<close>

lemma merge_two_orders:
  assumes "distinct [x, y, z]"
    and "\<forall>k \<in> set [x, y, z]. k \<notin> set proto_keys \<and> \<not> is_array_index k"
    and "3 \<le> relay_limit env"
  shows "mergeHints env [[x, y, z], [x, z, y]] None = [y, z, x]"
proof -
  let ?wx = "final_weight 2 \<lparr>score = 2 / 3, count = 2\<rparr>"
  let ?wy = "final_weight 2 \<lparr>score = 5 / 18, count = 2\<rparr>"
  let ?w = "[(x, ?wx), (y, ?wy), (z, ?wy)]"
  have f: "foldl add_group [] [[x, y, z], [x, z, y]] =
      [(x, \<lparr>score = 2 / 3, count = 2\<rparr>), (y, \<lparr>score = 5 / 18, count = 2\<rparr>),
       (z, \<lparr>score = 5 / 18, count = 2\<rparr>)]"
    using assms(1,2) by (simp add: add_group_def add_hint_def upt_rec)
  have lt: "?wy < ?wx"
    by (rule weight_increases_with_score) simp
  have w: "weighted [[x, y, z], [x, z, y]] = ?w"
    unfolding weighted_def f by (simp add: numeral_2_eq_2)
  have e: "entries ?w = ?w"
    using assms(2) by (simp add: entries_def)
  have s: "sort_key snd ?w = [(y, ?wy), (z, ?wy), (x, ?wx)]"
    using lt by simp
  show ?thesis
    unfolding mergeHints_def w e s using assms(3) by (simp add: or_default_def slice0_def)
qed

text \<open>
  Claim C4, evaluated. Merging \<^verbatim>\<open>[x, y, z]\<close> and \<^verbatim>\<open>[x, z, y]\<close> gives \<^verbatim>\<open>[y, z, x]\<close>: the URL at
  the top of both lists has the largest final weight and comes last. All three URLs occur
  in both lists, so the term \<^verbatim>\<open>log(groups.length / count)\<close> is zero for each, and
  \<^verbatim>\<open>log1p(exp(score - count))\<close> grows with the accumulated score.
\<close>

theorem merge_xyz_ranks_x_last:
  "mergeHints example_env
     [[''wss://x.example/'', ''wss://y.example/'', ''wss://z.example/''],
      [''wss://x.example/'', ''wss://z.example/'', ''wss://y.example/'']] None
   = [''wss://y.example/'', ''wss://z.example/'', ''wss://x.example/'']"
proof -
  have "distinct [''wss://x.example/'', ''wss://y.example/'', ''wss://z.example/'']"
    by simp
  moreover have "\<forall>k \<in> set [''wss://x.example/'', ''wss://y.example/'', ''wss://z.example/''].
      k \<notin> set proto_keys \<and> \<not> is_array_index k"
    by (simp add: proto_keys_def is_array_index_def digit_def)
  moreover have "3 \<le> relay_limit example_env"
    by (simp add: example_env_def)
  ultimately show ?thesis by (rule merge_two_orders)
qed

section \<open>Properties of the feed loader\<close>

subsection \<open>Deduplication and the store\<close>

lemma uniqBy_from_subset: "set (uniqBy_from seen f xs) \<subseteq> set xs"
  by (induction xs arbitrary: seen) auto

lemma uniqBy_from_fresh: "x \<in> set (uniqBy_from seen f xs) \<Longrightarrow> f x \<notin> seen"
  by (induction xs arbitrary: seen) (auto split: if_splits)

lemma uniqBy_from_distinct: "distinct (map f (uniqBy_from seen f xs))"
  by (induction xs arbitrary: seen) (auto dest: uniqBy_from_fresh)

lemma uniqBy_from_same:
  "distinct (map f xs) \<Longrightarrow> \<forall>x \<in> set xs. f x \<notin> seen \<Longrightarrow> uniqBy_from seen f xs = xs"
proof (induction xs arbitrary: seen)
  case Nil
  then show ?case by simp
next
  case (Cons a xs)
  have "\<forall>x \<in> set xs. f x \<notin> insert (f a) seen"
    using Cons.prems by (force simp: image_iff)
  then have "uniqBy_from (insert (f a) seen) f xs = xs"
    using Cons.IH Cons.prems(1) by simp
  then show ?case using Cons.prems(2) by simp
qed

lemma uniqBy_subset: "set (uniqBy f xs) \<subseteq> set xs"
  by (simp add: uniqBy_def uniqBy_from_subset)

lemma uniqBy_distinct: "distinct (map f (uniqBy f xs))"
  by (simp add: uniqBy_def uniqBy_from_distinct)

lemma uniqBy_same: "distinct (map f xs) \<Longrightarrow> uniqBy f xs = xs"
  by (simp add: uniqBy_def uniqBy_from_same)

lemma uniqBy_from_cong:
  "\<forall>x \<in> set xs. f x = g x \<Longrightarrow> uniqBy_from seen f xs = uniqBy_from seen g xs"
  by (induction xs arbitrary: seen) auto

lemma only_replies_refl: "only_replies h h"
  unfolding only_replies_def
proof
  fix a
  have "h a = (h a)\<lparr>replies := replies (h a)\<rparr>" by simp
  then show "\<exists>rs. h a = (h a)\<lparr>replies := rs\<rparr>" by blast
qed

lemma only_replies_trans: "only_replies h h1 \<Longrightarrow> only_replies h1 h2 \<Longrightarrow> only_replies h h2"
  unfolding only_replies_def
proof
  fix a
  assume 1: "\<forall>a. \<exists>rs. h1 a = (h a)\<lparr>replies := rs\<rparr>" and 2: "\<forall>a. \<exists>rs. h2 a = (h1 a)\<lparr>replies := rs\<rparr>"
  from 1 obtain r1 where "h1 a = (h a)\<lparr>replies := r1\<rparr>" by blast
  moreover from 2 obtain r2 where "h2 a = (h1 a)\<lparr>replies := r2\<rparr>" by blast
  ultimately have "h2 a = (h a)\<lparr>replies := r2\<rparr>" by simp
  then show "\<exists>rs. h2 a = (h a)\<lparr>replies := rs\<rparr>" by blast
qed

lemma only_replies_fields:
  assumes "only_replies h h'"
  shows "id' (h' a) = id' (h a)" "kind (h' a) = kind (h a)" "created_at (h' a) = created_at (h a)"
    "tags (h' a) = tags (h a)" "pubkey (h' a) = pubkey (h a)"
proof -
  from assms obtain rs where "h' a = (h a)\<lparr>replies := rs\<rparr>" unfolding only_replies_def by blast
  then show "id' (h' a) = id' (h a)" "kind (h' a) = kind (h a)" "created_at (h' a) = created_at (h a)"
    "tags (h' a) = tags (h a)" "pubkey (h' a) = pubkey (h a)" by simp_all
qed

lemma only_replies_ids: "only_replies h h' \<Longrightarrow> ids h' as = ids h as"
  by (simp add: ids_def only_replies_fields)

lemma only_replies_target: "only_replies h h' \<Longrightarrow> reply_target deps (h' a) = reply_target deps (h a)"
  by (simp add: reply_target_def only_replies_fields)

lemma heap_step_only_replies: "heap_step deps h h' \<Longrightarrow> only_replies h h'"
proof (induction rule: heap_step.induct)
  case (push h e p)
  show ?case unfolding only_replies_def pushToKey_def
  proof
    fix a
    show "\<exists>rs. (h(p := (h p)\<lparr>replies := Some (replies_or_empty (h p) @ [e])\<rparr>)) a = (h a)\<lparr>replies := rs\<rparr>"
      by (cases "a = p") (auto intro: exI[of _ "replies (h a)"])
  qed
next
  case (dedup h e)
  show ?case unfolding only_replies_def dedup_replies_def
  proof
    fix a
    show "\<exists>rs. (case replies (h e) of None \<Rightarrow> h
        | Some rs \<Rightarrow> h(e := (h e)\<lparr>replies := Some (uniqBy (\<lambda>r. id' (h r)) rs)\<rparr>)) a = (h a)\<lparr>replies := rs\<rparr>"
      by (cases "a = e"; cases "replies (h e)") (auto intro: exI[of _ "replies (h a)"])
  qed
qed

lemma heap_steps_only_replies: "(heap_step deps)\<^sup>*\<^sup>* h h' \<Longrightarrow> only_replies h h'"
  by (induction rule: rtranclp_induct)
     (auto intro: only_replies_refl only_replies_trans heap_step_only_replies)

subsection \<open>The loop of \<^verbatim>\<open>buildFeedChunk\<close>\<close>

lemma find_root_steps:
  "find_root deps ps h e = Some y \<Longrightarrow> (heap_step deps)\<^sup>*\<^sup>* h (fst y)"
proof (induction rule: find_root.raw_induct[rotated 1, consumes 1, case_names step])
  case (step find_root deps ps h e y)
  note 1 = step
  show ?case
  proof (cases "reply_target deps (h e)")
    case None
    then show ?thesis using 1(2) by auto
  next
    case (Some parentId)
    show ?thesis
    proof (cases "ps parentId")
      case None
      then show ?thesis using 1(2) Some by auto
    next
      case (Some parent)
      let ?h1 = "if kind (h e) \<in> set (noteKinds deps) \<and>
                   find (\<lambda>r. id' (h r) = id' (h e)) (replies_or_empty (h parent)) = None
                then pushToKey h parent e else h"
      have "find_root deps ps ?h1 parent = Some y"
        using 1(2) \<open>reply_target deps (h e) = Some parentId\<close> Some by simp
      then have "(heap_step deps)\<^sup>*\<^sup>* ?h1 (fst y)" by (rule 1(1))
      moreover have "(heap_step deps)\<^sup>*\<^sup>* h ?h1"
        by (auto intro: heap_step.push)
      ultimately show ?thesis by (rule rtranclp_trans[rotated])
    qed
  qed
qed

lemma find_root_unresolved:
  "unresolved deps ps h e \<Longrightarrow> find_root deps ps h e = Some (h, e)"
  by (subst find_root.simps) (auto simp: unresolved_def split: option.splits)

lemma map_roots_steps:
  "map_roots deps ps h es = Some (h', rs) \<Longrightarrow> (heap_step deps)\<^sup>*\<^sup>* h h'"
proof (induction es arbitrary: h h' rs)
  case Nil
  then show ?case by simp
next
  case (Cons e es)
  from Cons.prems obtain h1 r rs' where a: "find_root deps ps h e = Some (h1, r)"
    and b: "map_roots deps ps h1 es = Some (h', rs')"
    by (auto split: option.splits)
  from find_root_steps[OF a] have "(heap_step deps)\<^sup>*\<^sup>* h h1" by simp
  moreover have "(heap_step deps)\<^sup>*\<^sup>* h1 h'" using Cons.IH[OF b] .
  ultimately show ?case by simp
qed

lemma unresolved_only_replies:
  "only_replies h h' \<Longrightarrow> unresolved deps ps h' e = unresolved deps ps h e"
  by (simp add: unresolved_def only_replies_target)

lemma map_roots_keeps_unresolved:
  "map_roots deps ps h es = Some (h', rs) \<Longrightarrow> e \<in> set es \<Longrightarrow> unresolved deps ps h e
   \<Longrightarrow> e \<in> set rs"
proof (induction es arbitrary: h h' rs)
  case Nil
  then show ?case by simp
next
  case (Cons x es)
  from Cons.prems(1) obtain h1 r rs' where a: "find_root deps ps h x = Some (h1, r)"
    and b: "map_roots deps ps h1 es = Some (h', rs')" and c: "rs = r # rs'"
    by (auto split: option.splits)
  show ?case
  proof (cases "e = x")
    case True
    then have "find_root deps ps h x = Some (h, x)"
      using Cons.prems(3) by (simp add: find_root_unresolved)
    then show ?thesis using a c True by simp
  next
    case False
    then have "e \<in> set es" using Cons.prems(2) by simp
    moreover have "unresolved deps ps h1 e"
      using find_root_steps[OF a] Cons.prems(3)
      by (simp add: unresolved_only_replies[OF heap_steps_only_replies])
    ultimately have "e \<in> set rs'" using Cons.IH[OF b] by simp
    then show ?thesis using c by simp
  qed
qed

lemma dedup_steps: "(heap_step deps)\<^sup>*\<^sup>* h (foldl dedup_replies h es)"
proof (induction es arbitrary: h)
  case Nil
  then show ?case by simp
next
  case (Cons e es)
  have "heap_step deps h (dedup_replies h e)" by (rule heap_step.dedup)
  then show ?case using Cons.IH[of "dedup_replies h e"] by simp
qed

lemma heap_step_replies_distinct:
  assumes "heap_step deps h h'" and "replies_distinct h"
  shows "replies_distinct h'"
  using assms
proof (induction rule: heap_step.induct)
  case (push h e p)
  have o: "only_replies h (pushToKey h p e)"
    by (rule heap_step_only_replies[OF heap_step.push[OF push(1,2)]])
  have "id' (h e) \<notin> set (ids h (replies_or_empty (h p)))"
    using push(2) by (auto simp: find_None_iff ids_def)
  then have "distinct (ids h (replies_or_empty (h p) @ [e]))"
    using push(3) by (simp add: replies_distinct_def ids_def)
  then show ?case
    using push(3) unfolding replies_distinct_def only_replies_ids[OF o]
    by (simp add: pushToKey_def replies_or_empty_def)
next
  case (dedup h e)
  have o: "only_replies h (dedup_replies h e)"
    by (rule heap_step_only_replies[OF heap_step.dedup])
  have "distinct (ids h (uniqBy (\<lambda>r. id' (h r)) rs))" for rs
    unfolding ids_def by (rule uniqBy_distinct)
  then show ?case
    using dedup unfolding replies_distinct_def only_replies_ids[OF o]
    by (auto simp: dedup_replies_def replies_or_empty_def split: option.splits)
qed

lemma heap_steps_replies_distinct:
  "(heap_step deps)\<^sup>*\<^sup>* h h' \<Longrightarrow> replies_distinct h \<Longrightarrow> replies_distinct h'"
  by (induction rule: rtranclp_induct) (auto intro: heap_step_replies_distinct)

lemma heap_step_note_kinds:
  assumes "heap_step deps h h'" and "r \<in> set (replies_or_empty (h' p))"
  shows "r \<in> set (replies_or_empty (h p)) \<or> kind (h r) \<in> set (noteKinds deps)"
  using assms
proof (induction rule: heap_step.induct)
  case (push h e q)
  then show ?case
    by (auto simp: pushToKey_def replies_or_empty_def split: if_splits)
next
  case (dedup h e)
  then show ?case
    using uniqBy_subset[of "\<lambda>r. id' (h r)"]
    by (auto simp: dedup_replies_def replies_or_empty_def split: option.splits if_splits)
qed

lemma heap_steps_note_kinds:
  "(heap_step deps)\<^sup>*\<^sup>* h h' \<Longrightarrow> r \<in> set (replies_or_empty (h' p)) \<Longrightarrow>
   r \<in> set (replies_or_empty (h p)) \<or> kind (h r) \<in> set (noteKinds deps)"
proof (induction rule: rtranclp_induct)
  case base
  then show ?case by simp
next
  case (step h1 h2)
  from heap_step_note_kinds[OF step(2) step(4)]
  have "r \<in> set (replies_or_empty (h1 p)) \<or> kind (h1 r) \<in> set (noteKinds deps)" .
  moreover have "kind (h1 r) = kind (h r)"
    using heap_steps_only_replies[OF step(1)] by (simp add: only_replies_fields)
  ultimately show ?case using step(3) by auto
qed

subsection \<open>Chunks\<close>

lemma descending_only_replies: "only_replies h h' \<Longrightarrow> descending h' as = descending h as"
  by (simp add: descending_def only_replies_fields)

lemma uniqBy_from_covers:
  "x \<in> set xs \<Longrightarrow> f x \<in> seen \<or> f x \<in> f ` set (uniqBy_from seen f xs)"
proof (induction xs arbitrary: seen)
  case Nil
  then show ?case by simp
next
  case (Cons a xs)
  show ?case
  proof (cases "x = a")
    case True
    then show ?thesis by simp
  next
    case False
    then have x: "x \<in> set xs" using Cons.prems by simp
    show ?thesis
    proof (cases "f a \<in> seen")
      case True
      then show ?thesis using Cons.IH[OF x, of seen] by auto
    next
      case False
      then show ?thesis using Cons.IH[OF x, of "insert (f a) seen"] by auto
    qed
  qed
qed

lemma uniqBy_covers: "x \<in> set xs \<Longrightarrow> f x \<in> f ` set (uniqBy f xs)"
  using uniqBy_from_covers[of x xs f "{}"] by (simp add: uniqBy_def)

lemma build_chunk_Some:
  assumes "build_chunk deps ps shown h ns = Some (h2, chunk)"
  obtains h1 roots where "map_roots deps ps h ns = Some (h1, roots)"
    and "h2 = foldl dedup_replies h1
           (filter (\<lambda>e. \<not> (id' (h1 e) \<in> set (ids h shown) \<or> kind (h1 e) \<in> set (reactionKinds deps))) roots)"
    and "chunk = sort_key (\<lambda>e. - created_at (h2 e)) (uniqBy (\<lambda>e. id' (h2 e))
           (filter (\<lambda>e. \<not> (id' (h1 e) \<in> set (ids h shown) \<or> kind (h1 e) \<in> set (reactionKinds deps))) roots))"
  using assms by (auto simp: build_chunk_def Let_def ids_def split: option.splits)

lemma build_chunk_steps:
  assumes "build_chunk deps ps shown h ns = Some (h2, chunk)"
  shows "(heap_step deps)\<^sup>*\<^sup>* h h2"
proof -
  from assms obtain h1 roots where a: "map_roots deps ps h ns = Some (h1, roots)"
    and b: "h2 = foldl dedup_replies h1
           (filter (\<lambda>e. \<not> (id' (h1 e) \<in> set (ids h shown) \<or> kind (h1 e) \<in> set (reactionKinds deps))) roots)"
    by (rule build_chunk_Some)
  have "(heap_step deps)\<^sup>*\<^sup>* h h1" using a by (rule map_roots_steps)
  moreover have "(heap_step deps)\<^sup>*\<^sup>* h1 h2" unfolding b by (rule dedup_steps)
  ultimately show ?thesis by simp
qed

lemma build_chunk_props:
  assumes "build_chunk deps ps shown h ns = Some (h2, chunk)"
  shows "distinct (ids h chunk)"
    and "\<forall>a \<in> set chunk. id' (h a) \<notin> set (ids h shown) \<and> kind (h a) \<notin> set (reactionKinds deps)"
    and "descending h2 chunk"
proof -
  from assms obtain h1 roots where a: "map_roots deps ps h ns = Some (h1, roots)"
    and b: "h2 = foldl dedup_replies h1
           (filter (\<lambda>e. \<not> (id' (h1 e) \<in> set (ids h shown) \<or> kind (h1 e) \<in> set (reactionKinds deps))) roots)"
    and c: "chunk = sort_key (\<lambda>e. - created_at (h2 e)) (uniqBy (\<lambda>e. id' (h2 e))
           (filter (\<lambda>e. \<not> (id' (h1 e) \<in> set (ids h shown) \<or> kind (h1 e) \<in> set (reactionKinds deps))) roots))"
    by (rule build_chunk_Some)
  let ?cand = "filter (\<lambda>e. \<not> (id' (h1 e) \<in> set (ids h shown) \<or> kind (h1 e) \<in> set (reactionKinds deps))) roots"
  have o1: "only_replies h h1"
    using map_roots_steps[OF a] by (rule heap_steps_only_replies)
  have o2: "only_replies h h2"
    using build_chunk_steps[OF assms] by (rule heap_steps_only_replies)
  have f2: "(\<lambda>e. id' (h2 e)) = (\<lambda>e. id' (h e))"
    using o2 by (simp add: only_replies_fields)
  have u: "distinct (map (\<lambda>e. id' (h e)) (uniqBy (\<lambda>e. id' (h e)) ?cand))"
    by (rule uniqBy_distinct)
  have "distinct (map (\<lambda>e. id' (h e)) chunk)"
    using u unfolding c f2 by (simp add: distinct_map)
  then show "distinct (ids h chunk)" by (simp add: ids_def)
  have "set chunk \<subseteq> set ?cand"
    unfolding c using uniqBy_subset[of "\<lambda>e. id' (h2 e)" ?cand] by simp
  then show "\<forall>a \<in> set chunk. id' (h a) \<notin> set (ids h shown) \<and> kind (h a) \<notin> set (reactionKinds deps)"
    using o1 by (auto simp: only_replies_fields)
  show "descending h2 chunk"
    unfolding descending_def c by (simp add: sorted_sort_key)
qed

lemma build_chunk_keeps_unresolved:
  assumes "build_chunk deps ps shown h ns = Some (h2, chunk)"
    and "e \<in> set ns" and "unresolved deps ps h e"
    and "kind (h e) \<notin> set (reactionKinds deps)" and "id' (h e) \<notin> set (ids h shown)"
  shows "id' (h e) \<in> set (ids h chunk)"
proof -
  from assms(1) obtain h1 roots where a: "map_roots deps ps h ns = Some (h1, roots)"
    and b: "h2 = foldl dedup_replies h1
           (filter (\<lambda>e. \<not> (id' (h1 e) \<in> set (ids h shown) \<or> kind (h1 e) \<in> set (reactionKinds deps))) roots)"
    and c: "chunk = sort_key (\<lambda>e. - created_at (h2 e)) (uniqBy (\<lambda>e. id' (h2 e))
           (filter (\<lambda>e. \<not> (id' (h1 e) \<in> set (ids h shown) \<or> kind (h1 e) \<in> set (reactionKinds deps))) roots))"
    by (rule build_chunk_Some)
  let ?cand = "filter (\<lambda>e. \<not> (id' (h1 e) \<in> set (ids h shown) \<or> kind (h1 e) \<in> set (reactionKinds deps))) roots"
  have o1: "only_replies h h1"
    using map_roots_steps[OF a] by (rule heap_steps_only_replies)
  have o2: "only_replies h h2"
    using build_chunk_steps[OF assms(1)] by (rule heap_steps_only_replies)
  have f2: "(\<lambda>e. id' (h2 e)) = (\<lambda>e. id' (h e))"
    using o2 by (simp add: only_replies_fields)
  have "e \<in> set roots" using map_roots_keeps_unresolved[OF a assms(2,3)] .
  then have "e \<in> set ?cand" using assms(4,5) o1 by (simp add: only_replies_fields)
  then have "id' (h e) \<in> (\<lambda>e. id' (h e)) ` set (uniqBy (\<lambda>e. id' (h e)) ?cand)"
    by (rule uniqBy_covers)
  then show ?thesis unfolding c f2 by (simp add: ids_def)
qed

lemma addToFeed_Some:
  assumes "addToFeed deps s ns = Some s'"
  obtains h2 chunk where "build_chunk deps (parents s) (notes' s) (heap s) ns = Some (h2, chunk)"
    and "s' = s\<lparr>heap := h2, notes' := uniqBy (\<lambda>a. id' (h2 a)) (notes' s @ chunk)\<rparr>"
  using assms by (auto simp: addToFeed_def buildFeedChunk_def split: option.splits)

lemma addToFeed_inv:
  assumes "feed_inv deps s" and "addToFeed deps s ns = Some s'"
  shows "feed_inv deps s'"
    and "\<exists>chunk. s' = s\<lparr>heap := heap s', notes' := notes' s @ chunk\<rparr> \<and> descending (heap s') chunk
           \<and> build_chunk deps (parents s) (notes' s) (heap s) ns = Some (heap s', chunk)"
    and "(heap_step deps)\<^sup>*\<^sup>* (heap s) (heap s')"
proof -
  from assms(2) obtain h2 chunk
    where a: "build_chunk deps (parents s) (notes' s) (heap s) ns = Some (h2, chunk)"
      and b: "s' = s\<lparr>heap := h2, notes' := uniqBy (\<lambda>a. id' (h2 a)) (notes' s @ chunk)\<rparr>"
    by (rule addToFeed_Some)
  have st: "(heap_step deps)\<^sup>*\<^sup>* (heap s) h2" using a by (rule build_chunk_steps)
  have o: "only_replies (heap s) h2" using st by (rule heap_steps_only_replies)
  note p = build_chunk_props[OF a]
  have d: "distinct (map (\<lambda>a. id' (h2 a)) (notes' s @ chunk))"
    using assms(1) p(1,2) o
    by (fastforce simp: feed_inv_def ids_def only_replies_fields image_iff)
  have n: "notes' s' = notes' s @ chunk"
    unfolding b using uniqBy_same[OF d] by simp
  have hs: "heap s' = h2" unfolding b by simp
  show "(heap_step deps)\<^sup>*\<^sup>* (heap s) (heap s')" using st hs by simp
  show "\<exists>chunk. s' = s\<lparr>heap := heap s', notes' := notes' s @ chunk\<rparr> \<and> descending (heap s') chunk
           \<and> build_chunk deps (parents s) (notes' s) (heap s) ns = Some (heap s', chunk)"
    using b n hs p(3) a uniqBy_same[OF d] by auto
  show "feed_inv deps s'"
    unfolding feed_inv_def
  proof (intro conjI)
    show "distinct (ids (heap s') (notes' s'))"
      using d n hs by (simp add: ids_def)
    show "\<forall>a\<in>set (notes' s'). kind (heap s' a) \<notin> set (reactionKinds deps)"
      using assms(1) p(2) o n hs by (auto simp: feed_inv_def only_replies_fields)
    show "replies_distinct (heap s')"
      using heap_steps_replies_distinct[OF st] assms(1) hs by (simp add: feed_inv_def)
  qed
qed

lemma addToFeed_frame:
  assumes "addToFeed deps s ns = Some s'"
  shows "parents s' = parents s" "buffer s' = buffer s" "timers s' = timers s"
    "subs s' = subs s" "stopped s' = stopped s" "deferred s' = deferred s"
    "closed_subs s' = closed_subs s" "since s' = since s"
proof -
  from assms obtain h2 chunk
    where "s' = s\<lparr>heap := h2, notes' := uniqBy (\<lambda>a. id' (h2 a)) (notes' s @ chunk)\<rparr>"
    by (rule addToFeed_Some)
  then show "parents s' = parents s" "buffer s' = buffer s" "timers s' = timers s"
    "subs s' = subs s" "stopped s' = stopped s" "deferred s' = deferred s"
    "closed_subs s' = closed_subs s" "since s' = since s"
    by simp_all
qed

lemma addToFeed_appends:
  assumes "feed_inv deps s" and "addToFeed deps s ns = Some s'"
  shows "\<exists>chunk. notes' s' = notes' s @ chunk \<and> descending (heap s') chunk"
proof -
  from addToFeed_inv(2)[OF assms] obtain chunk
    where a: "s' = s\<lparr>heap := heap s', notes' := notes' s @ chunk\<rparr>" and b: "descending (heap s') chunk"
    by blast
  from a have "notes' s' = notes' (s\<lparr>heap := heap s', notes' := notes' s @ chunk\<rparr>)" by simp
  then have "notes' s' = notes' s @ chunk" by simp
  then show ?thesis using b by blast
qed

subsection \<open>The invariant of the feed\<close>

lemma close_subs_frame:
  "notes' (foldl (close_sub deps) s xs) = notes' s \<and> heap (foldl (close_sub deps) s xs) = heap s \<and>
   parents (foldl (close_sub deps) s xs) = parents s \<and>
   buffer (foldl (close_sub deps) s xs) = buffer s \<and>
   timers (foldl (close_sub deps) s xs) = timers s \<and>
   deferred (foldl (close_sub deps) s xs) = deferred s \<and>
   stopped (foldl (close_sub deps) s xs) = stopped s"
  by (induction xs arbitrary: s) (simp_all add: close_sub_def on_close_def Let_def)

lemma stop_frame:
  "notes' (stop deps s) = notes' s" "heap (stop deps s) = heap s"
  "parents (stop deps s) = parents s" "buffer (stop deps s) = buffer s"
  "timers (stop deps s) = timers s" "deferred (stop deps s) = deferred s"
  "stopped (stop deps s)"
  using close_subs_frame[of deps "s\<lparr>stopped := True\<rparr>" "subs s"] by (simp_all add: stop_def)

lemma feed_inv_fields:
  "notes' s1 = notes' s \<Longrightarrow> heap s1 = heap s \<Longrightarrow> feed_inv deps s1 = feed_inv deps s"
  by (simp add: feed_inv_def)

lemma load_as_addToFeed:
  "\<exists>s0 ns. load deps opts taken now s = addToFeed deps s0 ns \<and> notes' s0 = notes' s \<and>
     heap s0 = heap s \<and> parents s0 = parents s \<and> buffer s0 = buffer s \<and>
     stopped s0 = stopped s \<and> subs s0 = subs s @ fst taken \<and>
     closed_subs s0 = closed_subs s \<and>
     deferred s0 = (if shouldDefer opts then [] else deferred s)"
proof (cases "shouldDefer opts")
  case False
  have "load deps opts taken now s = addToFeed deps (addSubs (fst taken) s)
      (discardEvents deps opts (heap s) (snd taken))"
    using False by (simp add: load_def Let_def)
  then show ?thesis
    apply (intro exI conjI, assumption)
    using False apply (simp_all add: addSubs_def)
    done
next
  case True
  show ?thesis
  proof (cases "shouldLoadParents opts")
    case False
    with True show ?thesis
      unfolding load_def Let_def deferOrphans_def deferAncient_def
      apply simp
      apply (intro exI conjI, rule refl)
      apply (simp_all add: addSubs_def)
      done
  next
    case slp: True
    with True show ?thesis
      unfolding load_def Let_def deferOrphans_def deferAncient_def
      apply simp
      apply (intro exI conjI, rule refl)
      apply (simp_all add: addSubs_def)
      done
  qed
qed

lemma load_Some:
  assumes "load deps opts taken now s = Some s'"
  shows "\<exists>s0 ns. addToFeed deps s0 ns = Some s' \<and> notes' s0 = notes' s \<and> heap s0 = heap s \<and>
     parents s0 = parents s \<and> buffer s0 = buffer s \<and> stopped s0 = stopped s \<and>
     subs s0 = subs s @ fst taken \<and> closed_subs s0 = closed_subs s"
  using load_as_addToFeed[of deps opts taken now s] assms by metis

lemma unchanged_feed:
  assumes "feed_inv deps s" and "notes' s' = notes' s" and "heap s' = heap s"
  shows "feed_inv deps s' \<and> (\<exists>chunk. notes' s' = notes' s @ chunk \<and> descending (heap s') chunk)
           \<and> (heap_step deps)\<^sup>*\<^sup>* (heap s) (heap s')"
proof -
  have "notes' s' = notes' s @ [] \<and> descending (heap s') []"
    using assms(2) by (simp add: descending_def)
  then have "\<exists>chunk. notes' s' = notes' s @ chunk \<and> descending (heap s') chunk" by blast
  then show ?thesis using assms feed_inv_fields[OF assms(2,3), of deps] by simp
qed

lemma step_inv:
  assumes "feed_inv deps s" and "step deps opts a s = Some s'"
  shows "feed_inv deps s'"
    and "\<exists>chunk. notes' s' = notes' s @ chunk \<and> descending (heap s') chunk"
    and "(heap_step deps)\<^sup>*\<^sup>* (heap s) (heap s')"
proof -
  have "feed_inv deps s' \<and> (\<exists>chunk. notes' s' = notes' s @ chunk \<and> descending (heap s') chunk)
           \<and> (heap_step deps)\<^sup>*\<^sup>* (heap s) (heap s')"
  proof (cases a)
    case (Load n taken now)
    then have "load deps opts taken now s = Some s'" using assms(2) by simp
    from load_Some[OF this] obtain s0 ns where a: "addToFeed deps s0 ns = Some s'"
      and b: "notes' s0 = notes' s" "heap s0 = heap s"
      by blast
    have i: "feed_inv deps s0" using assms(1) feed_inv_fields[OF b, of deps] by simp
    from addToFeed_inv(1,3)[OF i a] addToFeed_appends[OF i a] b show ?thesis by simp
  next
    case LoadBuffer
    then obtain s1 where a: "addToFeed deps s (buffer s) = Some s1" and b: "s' = s1\<lparr>buffer := []\<rparr>"
      using assms(2) by (auto simp: loadBuffer_def split: option.splits)
    have c: "notes' s' = notes' s1" "heap s' = heap s1" using b by simp_all
    show ?thesis
      using addToFeed_inv(1,3)[OF assms(1) a] addToFeed_appends[OF assms(1) a]
        feed_inv_fields[OF c, of deps] c
      by simp
  next
    case (Fire i)
    show ?thesis
    proof (cases "i < length (timers s)")
      case True
      let ?s0 = "s\<lparr>timers := take i (timers s) @ drop (Suc i) (timers s)\<rparr>"
      have a: "addToFeed deps ?s0 (snd (timers s ! i)) = Some s'"
        using assms(2) Fire True by (simp add: fire_def)
      have i: "feed_inv deps ?s0" using assms(1) by (simp add: feed_inv_def)
      from addToFeed_inv(1,3)[OF i a] addToFeed_appends[OF i a] show ?thesis by simp
    next
      case False
      then have "s' = s" using assms(2) Fire by (simp add: fire_def)
      then show ?thesis using assms(1) by (intro unchanged_feed) simp_all
    qed
  next
    case Stop
    then have "notes' s' = notes' s" "heap s' = heap s"
      using assms(2) by (auto simp: stop_frame)
    then show ?thesis using assms(1) by (intro unchanged_feed)
  next
    case (LiveBatch events)
    then have "notes' s' = notes' s" "heap s' = heap s"
      using assms(2) by (auto simp: on_live_batch_def)
    then show ?thesis using assms(1) by (intro unchanged_feed)
  next
    case (ParentsBatch events)
    then have "notes' s' = notes' s" "heap s' = heap s"
      using assms(2) by (auto simp: on_parents_batch_def)
    then show ?thesis using assms(1) by (intro unchanged_feed)
  next
    case (SubClosed sub)
    then have "notes' s' = notes' s" "heap s' = heap s"
      using assms(2) by (auto simp: on_close_def)
    then show ?thesis using assms(1) by (intro unchanged_feed)
  qed
  then show "feed_inv deps s'"
    and "\<exists>chunk. notes' s' = notes' s @ chunk \<and> descending (heap s') chunk"
    and "(heap_step deps)\<^sup>*\<^sup>* (heap s) (heap s')"
    by simp_all
qed

lemma run_inv:
  assumes "feed_inv deps s" and "run deps opts acts s = Some s'"
  shows "feed_inv deps s' \<and> (heap_step deps)\<^sup>*\<^sup>* (heap s) (heap s') \<and>
     (\<exists>chunks. notes' s' = notes' s @ concat chunks \<and> (\<forall>c \<in> set chunks. descending (heap s') c))"
  using assms
proof (induction acts arbitrary: s)
  case Nil
  then have "s' = s" by simp
  moreover have "notes' s = notes' s @ concat []" by simp
  ultimately show ?case using Nil(1) by (metis empty_iff list.set(1) rtranclp.rtrancl_refl)
next
  case (Cons a acts)
  from Cons.prems(2) obtain s1 where a: "step deps opts a s = Some s1"
    and b: "run deps opts acts s1 = Some s'"
    by (auto split: option.splits)
  note st = step_inv[OF Cons.prems(1) a]
  from st(2) obtain chunk where c: "notes' s1 = notes' s @ chunk" "descending (heap s1) chunk"
    by blast
  from Cons.IH[OF st(1) b] obtain chunks where i: "feed_inv deps s'"
    "(heap_step deps)\<^sup>*\<^sup>* (heap s1) (heap s')"
    "notes' s' = notes' s1 @ concat chunks" "\<forall>c \<in> set chunks. descending (heap s') c"
    by blast
  have "descending (heap s') chunk"
    using c(2) descending_only_replies[OF heap_steps_only_replies[OF i(2)]] by simp
  then have "\<forall>c \<in> set (chunk # chunks). descending (heap s') c" using i(4) by simp
  moreover have "notes' s' = notes' s @ concat (chunk # chunks)" using i(3) c(1) by simp
  moreover have "(heap_step deps)\<^sup>*\<^sup>* (heap s) (heap s')" using st(3) i(2) by simp
  ultimately show ?case using i(1) by blast
qed

lemmas ex_defs = example_loader_def construct_def addSubs_def example_store_def ev_def
  example_deps_def example_opts_def

lemmas feed_defs = load_def loadBuffer_def fire_def stop_def close_sub_def on_live_batch_def
  on_parents_batch_def on_close_def discardEvents_def deferOrphans_def deferAncient_def
  addToFeed_def buildFeedChunk_def build_chunk_def dedup_replies_def reply_target_def
  uniqBy_def replies_or_empty_def pushToKey_def Let_def

text \<open>
  Claim C1, as the code has it. Take a loader whose feed has no duplicate id and no entry
  of a reaction kind, and a store in which no replies list holds an id twice. After every
  run of actions that returns (calls of \<^verbatim>\<open>load\<close> and \<^verbatim>\<open>loadBuffer\<close>, fired timers, \<^verbatim>\<open>stop\<close>,
  batches from the subscriptions, closed handles) the same three properties hold, and
  they hold again after any further action. The feed is not kept sorted as a whole: the
  action leaves the entries already shown where they are, at the head of the feed, and
  what it appends behind them is one chunk sorted by \<^verbatim>\<open>created_at\<close>, newest first, equal
  times allowed.
\<close>

theorem feed_invariant:
  assumes "feed_inv deps s" and "run deps opts acts s = Some s1"
    and "step deps opts a s1 = Some s'"
  shows "feed_inv deps s1 \<and> feed_inv deps s' \<and>
     take (length (notes' s1)) (notes' s') = notes' s1 \<and>
     descending (heap s') (drop (length (notes' s1)) (notes' s'))"
proof -
  have i1: "feed_inv deps s1" using run_inv[OF assms(1,2)] by blast
  from step_inv(2)[OF i1 assms(3)] obtain chunk
    where c: "notes' s' = notes' s1 @ chunk" "descending (heap s') chunk" by blast
  have "take (length (notes' s1)) (notes' s') = notes' s1"
    and "drop (length (notes' s1)) (notes' s') = chunk"
    using c(1) by simp_all
  then show ?thesis using i1 step_inv(1)[OF i1 assms(3)] c(2) by simp
qed

lemma example_loader_inv: "feed_inv example_deps example_loader"
  by (simp add: feed_inv_def replies_distinct_def ex_defs ids_def replies_or_empty_def)

lemma example_run_threaded:
  "map_option (\<lambda>s. (notes' s, map (\<lambda>a. created_at (heap s a)) (notes' s), replies (heap s 0)))
     (run example_deps example_opts [ParentsBatch [0], Load 3 ([], [1, 2, 3]) 1000]
        example_loader) = Some ([3, 0], [200, 50], Some [1])"
  by (simp add: ex_defs feed_defs find_root.simps)

theorem feed_invariant_witness:
  "feed_inv example_deps example_loader \<and>
   (\<exists>s1 s'. run example_deps example_opts [ParentsBatch [0]] example_loader = Some s1 \<and>
      step example_deps example_opts (Load 3 ([], [1, 2, 3]) 1000) s1 = Some s' \<and>
      notes' s1 = [] \<and> notes' s' = [3, 0] \<and>
      map (\<lambda>a. created_at (heap s' a)) (notes' s') = [200, 50] \<and>
      replies (heap s' 0) = Some [1] \<and> feed_inv example_deps s' \<and>
      descending (heap s') (drop (length (notes' s1)) (notes' s')))"
proof -
  let ?s1 = "on_parents_batch example_deps example_opts [0] example_loader"
  let ?a = "Load 3 ([], [1, 2, 3]) 1000"
  have r1: "run example_deps example_opts [ParentsBatch [0]] example_loader = Some ?s1"
    by simp
  have n1: "notes' ?s1 = []"
    by (simp add: on_parents_batch_def example_loader_def construct_def addSubs_def)
  have "run example_deps example_opts [ParentsBatch [0], ?a] example_loader
      = step example_deps example_opts ?a ?s1"
    by (simp split: option.splits)
  then have "map_option (\<lambda>s. (notes' s, map (\<lambda>a. created_at (heap s a)) (notes' s),
      replies (heap s 0))) (step example_deps example_opts ?a ?s1) = Some ([3, 0], [200, 50], Some [1])"
    using example_run_threaded by (simp only:)
  then obtain s' where s': "step example_deps example_opts ?a ?s1 = Some s'"
    and n: "notes' s' = [3, 0]" "map (\<lambda>a. created_at (heap s' a)) (notes' s') = [200, 50]"
      "replies (heap s' 0) = Some [1]"
    by (cases "step example_deps example_opts ?a ?s1") auto
  from feed_invariant[OF example_loader_inv r1 s']
  have "feed_inv example_deps s'"
    and "descending (heap s') (drop (length (notes' ?s1)) (notes' s'))" by blast+
  then have "run example_deps example_opts [ParentsBatch [0]] example_loader = Some ?s1 \<and>
      step example_deps example_opts ?a ?s1 = Some s' \<and>
      notes' ?s1 = [] \<and> notes' s' = [3, 0] \<and>
      map (\<lambda>a. created_at (heap s' a)) (notes' s') = [200, 50] \<and>
      replies (heap s' 0) = Some [1] \<and> feed_inv example_deps s' \<and>
      descending (heap s') (drop (length (notes' ?s1)) (notes' s'))"
    using r1 s' n1 n by (intro conjI)
  then have "\<exists>s'. run example_deps example_opts [ParentsBatch [0]] example_loader = Some ?s1 \<and>
      step example_deps example_opts ?a ?s1 = Some s' \<and>
      notes' ?s1 = [] \<and> notes' s' = [3, 0] \<and>
      map (\<lambda>a. created_at (heap s' a)) (notes' s') = [200, 50] \<and>
      replies (heap s' 0) = Some [1] \<and> feed_inv example_deps s' \<and>
      descending (heap s') (drop (length (notes' ?s1)) (notes' s'))"
    by (rule exI)
  then have "\<exists>s1 s'. run example_deps example_opts [ParentsBatch [0]] example_loader = Some s1 \<and>
      step example_deps example_opts ?a s1 = Some s' \<and>
      notes' s1 = [] \<and> notes' s' = [3, 0] \<and>
      map (\<lambda>a. created_at (heap s' a)) (notes' s') = [200, 50] \<and>
      replies (heap s' 0) = Some [1] \<and> feed_inv example_deps s' \<and>
      descending (heap s') (drop (length (notes' s1)) (notes' s'))"
    by (rule exI)
  then show ?thesis using example_loader_inv by (intro conjI)
qed

text \<open>
  A page with the note \<^verbatim>\<open>c\<close> (created at 10), then the live note \<^verbatim>\<open>b\<close> (created at 200)
  through \<^verbatim>\<open>loadBuffer\<close>: the feed reads 10, 200 from the top.
\<close>

theorem feed_not_sorted_counterexample:
  "map_option (\<lambda>s. map (\<lambda>a. created_at (heap s a)) (notes' s))
     (run example_deps example_opts [Load 1 ([], [4]) 1000, LiveBatch [3], LoadBuffer]
        example_loader) = Some [10, 200]"
  by (simp add: ex_defs feed_defs find_root.simps)

subsection \<open>Stopping\<close>

lemma addToFeed_flags:
  "addToFeed deps (s\<lparr>stopped := b, closed_subs := c\<rparr>) ns
     = map_option (\<lambda>t. t\<lparr>stopped := b, closed_subs := c\<rparr>) (addToFeed deps s ns)"
  by (simp add: addToFeed_def buildFeedChunk_def split: option.splits)

lemma loadBuffer_flags:
  "loadBuffer deps (s\<lparr>stopped := b, closed_subs := c\<rparr>)
     = map_option (\<lambda>t. t\<lparr>stopped := b, closed_subs := c\<rparr>) (loadBuffer deps s)"
  by (simp add: loadBuffer_def addToFeed_def buildFeedChunk_def split: option.splits)

lemma fire_flags:
  "fire deps i (s\<lparr>stopped := b, closed_subs := c\<rparr>)
     = map_option (\<lambda>t. t\<lparr>stopped := b, closed_subs := c\<rparr>) (fire deps i s)"
  by (simp add: fire_def addToFeed_def buildFeedChunk_def split: option.splits)

lemma load_flags:
  "load deps opts taken now (s\<lparr>stopped := b, closed_subs := c\<rparr>)
     = map_option (\<lambda>t. t\<lparr>stopped := b, closed_subs := c\<rparr>) (load deps opts taken now s)"
proof (cases "shouldDefer opts")
  case False
  then show ?thesis
    by (simp add: load_def Let_def addSubs_def addToFeed_def buildFeedChunk_def
        split: option.splits)
next
  case True
  show ?thesis
  proof (cases "shouldLoadParents opts")
    case False
    with True show ?thesis
      by (simp add: load_def Let_def deferOrphans_def deferAncient_def addSubs_def addToFeed_def
          buildFeedChunk_def split: option.splits)
  next
    case slp: True
    with True show ?thesis
      by (simp add: load_def Let_def deferOrphans_def deferAncient_def addSubs_def addToFeed_def
          buildFeedChunk_def split: option.splits)
  qed
qed

text \<open>
  Claim C2, evaluated. \<^verbatim>\<open>stop()\<close> sets \<^verbatim>\<open>this.stopped\<close>, and nothing reads it: \<^verbatim>\<open>load\<close>,
  \<^verbatim>\<open>loadBuffer\<close> and the timers do the same with the flag set as without it (the four
  lemmas above). After \<^verbatim>\<open>stop()\<close> on the example loader the feed is empty; a \<^verbatim>\<open>load(10)\<close> for
  which the cursor returns the handle 7 and the note \<^verbatim>\<open>b\<close> then puts the note into the feed
  and tracks the handle 7, whether or not \<^verbatim>\<open>close()\<close> fires the listeners at once.
\<close>

theorem load_after_stop_not_noop:
  "map_option (\<lambda>s. (stopped s, notes' s, subs s))
     (run (example_deps\<lparr>closeEmits := e\<rparr>) example_opts [Stop] example_loader)
     = Some (True, [], if e 5 then [] else [5]) \<and>
   map_option (\<lambda>s. (stopped s, notes' s, subs s))
     (run (example_deps\<lparr>closeEmits := e\<rparr>) example_opts [Stop, Load 10 ([7], [3]) 1000]
        example_loader)
     = Some (True, [3], (if e 5 then [] else [5]) @ [7])"
  by (cases "e 5") (simp_all add: ex_defs feed_defs find_root.simps)

text \<open>
  Claim C3, evaluated. The reply \<^verbatim>\<open>a\<close>, whose parent is unknown, is deferred by the orphan
  pass of a \<^verbatim>\<open>load\<close>; \<^verbatim>\<open>stop()\<close> is called; the timer of the orphan pass fires. Its callback
  is \<^verbatim>\<open>() => this.addToFeed(defer)\<close>, with no look at \<^verbatim>\<open>this.stopped\<close>: the notes list, empty
  before the timer fires, holds \<^verbatim>\<open>a\<close> afterwards.
\<close>

theorem timer_after_stop_not_noop:
  "map_option (\<lambda>s. (stopped s, notes' s, buffer s, timers s))
     (run (example_deps\<lparr>closeEmits := e\<rparr>) example_opts [Load 1 ([], [1]) 1000, Stop]
        example_loader)
     = Some (True, [], [], [(1500, [1]), (4000, [])]) \<and>
   map_option (\<lambda>s. (stopped s, notes' s, buffer s, timers s))
     (run (example_deps\<lparr>closeEmits := e\<rparr>) example_opts
        [Load 1 ([], [1]) 1000, Stop, Fire 0] example_loader)
     = Some (True, [1], [], [(4000, [])])"
  by (cases "e 5") (simp_all add: ex_defs feed_defs find_root.simps)

subsection \<open>Deferred events\<close>

lemma deferred_stays_empty:
  "deferred s = [] \<Longrightarrow> run deps opts acts s = Some s' \<Longrightarrow> deferred s' = []"
proof (induction acts arbitrary: s)
  case Nil
  then show ?case by simp
next
  case (Cons a acts)
  from Cons.prems(2) obtain s1 where s1: "step deps opts a s = Some s1"
    "run deps opts acts s1 = Some s'" by (auto split: option.splits)
  have "deferred s1 = []"
  proof (cases a)
    case (Load n taken now)
    then have l: "load deps opts taken now s = Some s1" using s1(1) by simp
    from load_as_addToFeed[of deps opts taken now s] obtain s0 ns
      where "load deps opts taken now s = addToFeed deps s0 ns"
        and "deferred s0 = (if shouldDefer opts then [] else deferred s)" by blast
    then have "addToFeed deps s0 ns = Some s1" "deferred s0 = []"
      using l Cons.prems(1) by simp_all
    then show ?thesis using addToFeed_frame(6) by simp
  next
    case LoadBuffer
    then obtain t where "addToFeed deps s (buffer s) = Some t" "s1 = t\<lparr>buffer := []\<rparr>"
      using s1(1) by (auto simp: loadBuffer_def split: option.splits)
    then show ?thesis using addToFeed_frame(6)[of deps s "buffer s" t] Cons.prems(1) by simp
  next
    case (Fire i)
    show ?thesis
    proof (cases "i < length (timers s)")
      case True
      then have "addToFeed deps (s\<lparr>timers := take i (timers s) @ drop (Suc i) (timers s)\<rparr>)
          (snd (timers s ! i)) = Some s1" using s1(1) Fire by (simp add: fire_def)
      from addToFeed_frame(6)[OF this] show ?thesis using Cons.prems(1) by simp
    next
      case False
      then show ?thesis using s1(1) Fire Cons.prems(1) by (simp add: fire_def)
    qed
  next
    case Stop
    then show ?thesis using s1(1) Cons.prems(1) by (auto simp: stop_frame)
  next
    case (LiveBatch events)
    then show ?thesis using s1(1) Cons.prems(1) by (auto simp: on_live_batch_def)
  next
    case (ParentsBatch events)
    then show ?thesis using s1(1) Cons.prems(1) by (auto simp: on_parents_batch_def)
  next
    case (SubClosed sub)
    then show ?thesis using s1(1) Cons.prems(1) by (auto simp: on_close_def)
  qed
  from Cons.IH[OF this s1(2)] show ?case .
qed

text \<open>
  Claim C5, as the code has it. When the delay of a deferral timer elapses, its events go
  straight to \<^verbatim>\<open>addToFeed\<close>: the timer is removed, no timer is added, \<^verbatim>\<open>deferred\<close> is not
  touched, and a deferred event at which the loop of \<^verbatim>\<open>buildFeedChunk\<close> stops (no reply
  target, or a parent that is still unknown) has its id in the feed afterwards, unless it
  is of a reaction kind. The list \<^verbatim>\<open>deferred\<close> that \<^verbatim>\<open>load\<close> merges in is never filled
  (lemma \<open>deferred_stays_empty\<close>).
\<close>

theorem deferred_events_committed_directly:
  assumes "feed_inv deps s" and "i < length (timers s)" and "fire deps i s = Some s'"
  shows "timers s' = take i (timers s) @ drop (Suc i) (timers s) \<and> deferred s' = deferred s \<and>
     (\<forall>e \<in> set (snd (timers s ! i)).
        unresolved deps (parents s) (heap s) e \<longrightarrow>
        kind (heap s e) \<notin> set (reactionKinds deps) \<longrightarrow>
        id' (heap s e) \<in> set (ids (heap s') (notes' s')))"
proof -
  let ?s0 = "s\<lparr>timers := take i (timers s) @ drop (Suc i) (timers s)\<rparr>"
  let ?ns = "snd (timers s ! i)"
  have a: "addToFeed deps ?s0 ?ns = Some s'"
    using assms(2,3) by (simp add: fire_def)
  have i0: "feed_inv deps ?s0" using assms(1) by (simp add: feed_inv_def)
  from addToFeed_inv(2)[OF i0 a] obtain chunk
    where c: "s' = ?s0\<lparr>heap := heap s', notes' := notes' ?s0 @ chunk\<rparr>"
      and b: "build_chunk deps (parents ?s0) (notes' ?s0) (heap ?s0) ?ns = Some (heap s', chunk)"
    by blast
  have n: "notes' s' = notes' s @ chunk"
  proof -
    from c have "notes' s' = notes' (?s0\<lparr>heap := heap s', notes' := notes' ?s0 @ chunk\<rparr>)" by simp
    then show ?thesis by simp
  qed
  have o: "only_replies (heap s) (heap s')"
    using addToFeed_inv(3)[OF i0 a] heap_steps_only_replies by simp
  have "id' (heap s e) \<in> set (ids (heap s') (notes' s'))"
    if e: "e \<in> set ?ns" "unresolved deps (parents s) (heap s) e"
      "kind (heap s e) \<notin> set (reactionKinds deps)" for e
  proof (cases "id' (heap s e) \<in> set (ids (heap s) (notes' s))")
    case True
    then show ?thesis unfolding only_replies_ids[OF o] n by (simp add: ids_def)
  next
    case False
    have "id' (heap s e) \<in> set (ids (heap s) chunk)"
      using build_chunk_keeps_unresolved[OF b] e False by simp
    then show ?thesis unfolding only_replies_ids[OF o] n by (simp add: ids_def)
  qed
  moreover have "timers s' = take i (timers s) @ drop (Suc i) (timers s)" "deferred s' = deferred s"
    using addToFeed_frame(3,6)[OF a] by simp_all
  ultimately show ?thesis by blast
qed

lemma example_orphan_unresolved:
  "map_option (\<lambda>s. (timers s, unresolved example_deps (parents s) (heap s) 1, notes' s))
     (run example_deps example_opts [Load 1 ([], [1]) 1000] example_loader)
     = Some ([(1500, [1]), (4000, [])], True, [])"
  by (simp add: ex_defs feed_defs find_root.simps unresolved_def)

theorem deferred_events_committed_directly_witness:
  "\<exists>s s'. run example_deps example_opts [Load 1 ([], [1]) 1000] example_loader = Some s \<and>
     timers s = [(1500, [1]), (4000, [])] \<and> unresolved example_deps (parents s) (heap s) 1 \<and>
     notes' s = [] \<and> fire example_deps 0 s = Some s' \<and> timers s' = [(4000, [])] \<and>
     id' (heap s 1) \<in> set (ids (heap s') (notes' s'))"
proof -
  let ?run1 = "run example_deps example_opts [Load 1 ([], [1]) 1000] example_loader"
  obtain s where s: "?run1 = Some s" "timers s = [(1500, [1]), (4000, [])]"
    "unresolved example_deps (parents s) (heap s) 1" "notes' s = []"
    using example_orphan_unresolved by (cases ?run1) auto
  have i: "feed_inv example_deps s"
    using run_inv[OF example_loader_inv s(1)] by blast
  have k: "kind (heap s 1) \<notin> set (reactionKinds example_deps)"
  proof -
    have "map_option (\<lambda>s. kind (heap s 1)) ?run1 = Some 1"
      by (simp add: ex_defs feed_defs find_root.simps)
    then show ?thesis using s(1) by (simp add: example_deps_def)
  qed
  have "run example_deps example_opts [Load 1 ([], [1]) 1000, Fire 0] example_loader
      = fire example_deps 0 s"
    using s(1) by (simp split: option.splits)
  moreover have "map_option notes' (run example_deps example_opts
      [Load 1 ([], [1]) 1000, Fire 0] example_loader) = Some [1]"
    by (simp add: ex_defs feed_defs find_root.simps)
  ultimately obtain s' where s': "fire example_deps 0 s = Some s'"
    by (cases "fire example_deps 0 s") auto
  have l: "0 < length (timers s)" using s(2) by simp
  from deferred_events_committed_directly[OF i l s'] s(2,3) k
  have "timers s' = [(4000, [])]" "id' (heap s 1) \<in> set (ids (heap s') (notes' s'))"
    by auto
  then show ?thesis using s s' by blast
qed

text \<open>
  The reply \<^verbatim>\<open>a\<close> is deferred by the orphan pass. When its timer fires its parent \<^verbatim>\<open>p\<close> is
  still unknown; a second orphan pass would pull it out again, but it is in the feed and no
  timer was scheduled for it.
\<close>

theorem deferred_not_rerun_counterexample:
  "map_option (\<lambda>s. (notes' s, timers s, deferred s, parents s ''p''))
     (run example_deps example_opts [Load 1 ([], [1]) 1000] example_loader)
     = Some ([], [(1500, [1]), (4000, [])], [], None) \<and>
   map_option (\<lambda>s. (notes' s, timers s, deferred s, parents s ''p''))
     (run example_deps example_opts [Load 1 ([], [1]) 1000, Fire 0] example_loader)
     = Some ([1], [(4000, [])], [], None)"
  by (simp add: ex_defs feed_defs find_root.simps)

subsection \<open>Replies\<close>

text \<open>
  Claim C10. Whatever \<^verbatim>\<open>buildFeedChunk\<close> adds to the replies of any object is an event of
  a note kind: an address found in a replies list afterwards was there before, or the kind
  of its event is in \<^verbatim>\<open>noteKinds\<close>.
\<close>

theorem replies_only_note_kinds:
  assumes "buildFeedChunk deps s ns = Some (s', chunk)"
    and "r \<in> set (replies_or_empty (heap s' p))"
  shows "r \<in> set (replies_or_empty (heap s p)) \<or> kind (heap s r) \<in> set (noteKinds deps)"
proof -
  from assms(1) have "build_chunk deps (parents s) (notes' s) (heap s) ns = Some (heap s', chunk)"
    by (auto simp: buildFeedChunk_def split: option.splits)
  then have "(heap_step deps)\<^sup>*\<^sup>* (heap s) (heap s')" by (rule build_chunk_steps)
  then show ?thesis using assms(2) by (rule heap_steps_note_kinds)
qed

lemma example_chunk:
  "map_option (\<lambda>(s', chunk). (replies (heap s' 0), chunk, kind (heap s' 1), kind (heap s' 2)))
     (buildFeedChunk example_deps (on_parents_batch example_deps example_opts [0] example_loader)
        [1, 2]) = Some (Some [1], [0], 1, 7)"
  by (simp add: ex_defs feed_defs find_root.simps)

theorem replies_only_note_kinds_witness:
  "\<exists>s' chunk.
     buildFeedChunk example_deps (on_parents_batch example_deps example_opts [0] example_loader)
       [1, 2] = Some (s', chunk) \<and>
     replies (heap s' 0) = Some [1] \<and> chunk = [0] \<and> kind (heap s' 2) = 7 \<and>
     kind (heap (on_parents_batch example_deps example_opts [0] example_loader) 1)
       \<in> set (noteKinds example_deps)"
proof -
  let ?s = "on_parents_batch example_deps example_opts [0] example_loader"
  obtain s' chunk where b: "buildFeedChunk example_deps ?s [1, 2] = Some (s', chunk)"
    and r: "replies (heap s' 0) = Some [1]" "chunk = [0]" "kind (heap s' 2) = 7"
    using example_chunk by (cases "buildFeedChunk example_deps ?s [1, 2]") auto
  have "1 \<in> set (replies_or_empty (heap s' 0))" using r(1) by (simp add: replies_or_empty_def)
  from replies_only_note_kinds[OF b this]
  have "kind (heap ?s 1) \<in> set (noteKinds example_deps)"
    by (simp add: ex_defs on_parents_batch_def replies_or_empty_def)
  then show ?thesis using b r by blast
qed

subsection \<open>Runs that return\<close>

text \<open>
  The loop of \<^verbatim>\<open>buildFeedChunk\<close> returns whenever the reply references are well founded,
  and then so does every action and every run. The statements above are about runs that
  return; this is the condition under which all of them do.
\<close>

lemma find_root_total:
  assumes "\<forall>e parentId p. reply_target deps (h0 e) = Some parentId \<longrightarrow> ps parentId = Some p
             \<longrightarrow> rk p < (rk e :: nat)"
    and "only_replies h0 h"
  shows "\<exists>y. find_root deps ps h e = Some y"
  using assms(2)
proof (induction "rk e" arbitrary: e h rule: less_induct)
  case less
  show ?case
  proof (cases "reply_target deps (h e)")
    case None
    then show ?thesis by (subst find_root.simps) simp
  next
    case (Some parentId)
    show ?thesis
    proof (cases "ps parentId")
      case None
      then show ?thesis using Some by (subst find_root.simps) simp
    next
      case (Some parent)
      let ?h1 = "if kind (h e) \<in> set (noteKinds deps) \<and>
                   find (\<lambda>r. id' (h r) = id' (h e)) (replies_or_empty (h parent)) = None
                then pushToKey h parent e else h"
      have t: "reply_target deps (h0 e) = Some parentId"
        using \<open>reply_target deps (h e) = Some parentId\<close> only_replies_target[OF less.prems]
        by simp
      then have r: "rk parent < rk e" using assms(1) Some by blast
      have "(heap_step deps)\<^sup>*\<^sup>* h ?h1" by (auto intro: heap_step.push)
      then have "only_replies h0 ?h1"
        using less.prems heap_steps_only_replies only_replies_trans by blast
      from less.hyps[OF r this] obtain y where "find_root deps ps ?h1 parent = Some y" by blast
      then have "find_root deps ps h e = Some y"
        using \<open>reply_target deps (h e) = Some parentId\<close> Some
        by (subst find_root.simps) simp
      then show ?thesis by blast
    qed
  qed
qed

lemma map_roots_total:
  assumes "\<forall>e parentId p. reply_target deps (h0 e) = Some parentId \<longrightarrow> ps parentId = Some p
             \<longrightarrow> rk p < (rk e :: nat)"
    and "only_replies h0 h"
  shows "\<exists>y. map_roots deps ps h es = Some y"
  using assms(2)
proof (induction es arbitrary: h)
  case Nil
  then show ?case by simp
next
  case (Cons e es)
  from find_root_total[OF assms(1) Cons.prems] obtain h1 r
    where a: "find_root deps ps h e = Some (h1, r)" by fastforce
  have "only_replies h0 h1"
    using find_root_steps[OF a] Cons.prems heap_steps_only_replies only_replies_trans
    by fastforce
  from Cons.IH[OF this] obtain h2 rs where "map_roots deps ps h1 es = Some (h2, rs)" by fastforce
  then show ?case using a by simp
qed

lemma addToFeed_total:
  assumes "ranked deps rk (heap s)" and "parents_ok s"
  shows "\<exists>s'. addToFeed deps s ns = Some s'"
proof -
  have "\<forall>e parentId p. reply_target deps (heap s e) = Some parentId \<longrightarrow>
      parents s parentId = Some p \<longrightarrow> rk p < rk e"
    using assms by (auto simp: ranked_def parents_ok_def)
  from map_roots_total[OF this only_replies_refl]
  obtain h1 roots where "map_roots deps (parents s) (heap s) ns = Some (h1, roots)" by fastforce
  then show ?thesis
    by (simp add: addToFeed_def buildFeedChunk_def build_chunk_def Let_def)
qed

lemma ranked_only_replies: "only_replies h h' \<Longrightarrow> ranked deps rk h' = ranked deps rk h"
  by (simp add: ranked_def only_replies_target only_replies_fields)

lemma parents_ok_fields:
  "parents s1 = parents s \<Longrightarrow> only_replies (heap s) (heap s1) \<Longrightarrow> parents_ok s \<Longrightarrow> parents_ok s1"
  by (simp add: parents_ok_def only_replies_fields)

lemma addToFeed_keeps_ok:
  assumes "addToFeed deps s ns = Some s'" and "ranked deps rk (heap s)" and "parents_ok s"
  shows "ranked deps rk (heap s') \<and> parents_ok s'"
proof -
  from assms(1) obtain h2 chunk
    where a: "build_chunk deps (parents s) (notes' s) (heap s) ns = Some (h2, chunk)"
      and b: "s' = s\<lparr>heap := h2, notes' := uniqBy (\<lambda>a. id' (h2 a)) (notes' s @ chunk)\<rparr>"
    by (rule addToFeed_Some)
  have o: "only_replies (heap s) (heap s')"
    using build_chunk_steps[OF a] heap_steps_only_replies b by simp
  have "parents s' = parents s" using b by simp
  then show ?thesis
    using assms(2,3) ranked_only_replies[OF o] parents_ok_fields[OF _ o] by simp
qed

lemma parents_fold_ok:
  assumes "\<forall>parentId p. m parentId = Some p \<longrightarrow> id' (h p) = parentId"
  shows "\<forall>parentId p. foldl (\<lambda>m e. m(id' (h e) \<mapsto> e)) m es parentId = Some p
           \<longrightarrow> id' (h p) = parentId"
  using assms
proof (induction es arbitrary: m)
  case Nil
  then show ?case by simp
next
  case (Cons e es)
  have "\<forall>parentId p. (m(id' (h e) \<mapsto> e)) parentId = Some p \<longrightarrow> id' (h p) = parentId"
  proof (intro allI impI)
    fix parentId p
    assume a: "(m(id' (h e) \<mapsto> e)) parentId = Some p"
    show "id' (h p) = parentId"
    proof (cases "parentId = id' (h e)")
      case True
      then have "p = e" using a by simp
      then show ?thesis using True by simp
    next
      case False
      then have "m parentId = Some p" using a by simp
      then show ?thesis using Cons.prems by blast
    qed
  qed
  from Cons.IH[OF this] show ?case unfolding foldl_Cons .
qed

lemma parents_ok_eq:
  assumes "parents s1 = parents s" and "heap s1 = heap s" and "parents_ok s"
  shows "parents_ok s1"
  using assms unfolding parents_ok_def by metis

lemma step_total_load:
  assumes "ranked deps rk (heap s)" and "parents_ok s"
  shows "\<exists>s'. load deps opts taken now s = Some s' \<and> ranked deps rk (heap s') \<and> parents_ok s'"
proof -
  from load_as_addToFeed[of deps opts taken now s]
  obtain s0 ns where l: "load deps opts taken now s = addToFeed deps s0 ns"
    and f: "heap s0 = heap s" "parents s0 = parents s" by blast
  have ok: "ranked deps rk (heap s0)" "parents_ok s0"
    using assms(1) f(1) parents_ok_eq[OF f(2,1) assms(2)] by simp_all
  from addToFeed_total[OF ok] obtain s' where a: "addToFeed deps s0 ns = Some s'" by blast
  from addToFeed_keeps_ok[OF a ok] show ?thesis using l a by simp
qed

lemma step_total_loadBuffer:
  assumes "ranked deps rk (heap s)" and "parents_ok s"
  shows "\<exists>s'. loadBuffer deps s = Some s' \<and> ranked deps rk (heap s') \<and> parents_ok s'"
proof -
  from addToFeed_total[OF assms] obtain s1 where a: "addToFeed deps s (buffer s) = Some s1"
    by blast
  note k = addToFeed_keeps_ok[OF a assms]
  have "parents_ok (s1\<lparr>buffer := []\<rparr>)"
    by (rule parents_ok_eq[of _ s1]) (simp_all add: k)
  moreover have "ranked deps rk (heap (s1\<lparr>buffer := []\<rparr>))" using k by simp
  ultimately show ?thesis using a by (simp add: loadBuffer_def)
qed

lemma step_total_fire:
  assumes "ranked deps rk (heap s)" and "parents_ok s"
  shows "\<exists>s'. fire deps i s = Some s' \<and> ranked deps rk (heap s') \<and> parents_ok s'"
proof (cases "i < length (timers s)")
  case True
  let ?s0 = "s\<lparr>timers := take i (timers s) @ drop (Suc i) (timers s)\<rparr>"
  have ok: "ranked deps rk (heap ?s0)" "parents_ok ?s0"
    using assms(1) parents_ok_eq[of ?s0 s, OF _ _ assms(2)] by simp_all
  from addToFeed_total[OF ok] obtain s' where a: "addToFeed deps ?s0 (snd (timers s ! i)) = Some s'"
    by blast
  from addToFeed_keeps_ok[OF a ok] show ?thesis using True a by (simp add: fire_def)
next
  case False
  then show ?thesis using assms by (simp add: fire_def)
qed

lemma step_total_rest:
  assumes "ranked deps rk (heap s)" and "parents_ok s"
  shows "ranked deps rk (heap (stop deps s)) \<and> parents_ok (stop deps s)"
    and "ranked deps rk (heap (on_live_batch deps opts events s)) \<and>
         parents_ok (on_live_batch deps opts events s)"
    and "ranked deps rk (heap (on_close sub s)) \<and> parents_ok (on_close sub s)"
    and "ranked deps rk (heap (on_parents_batch deps opts events s)) \<and>
         parents_ok (on_parents_batch deps opts events s)"
proof -
  show "ranked deps rk (heap (stop deps s)) \<and> parents_ok (stop deps s)"
    using assms(1) parents_ok_eq[of "stop deps s" s, OF _ _ assms(2)] by (simp add: stop_frame)
  show "ranked deps rk (heap (on_live_batch deps opts events s)) \<and>
         parents_ok (on_live_batch deps opts events s)"
    using assms(1) parents_ok_eq[of "on_live_batch deps opts events s" s, OF _ _ assms(2)]
    by (simp add: on_live_batch_def)
  show "ranked deps rk (heap (on_close sub s)) \<and> parents_ok (on_close sub s)"
    using assms(1) parents_ok_eq[of "on_close sub s" s, OF _ _ assms(2)]
    by (simp add: on_close_def)
  have "\<forall>parentId p. parents s parentId = Some p \<longrightarrow> id' (heap s p) = parentId"
    using assms(2) unfolding parents_ok_def .
  then have "\<forall>parentId p. foldl (\<lambda>m e. m(id' (heap s e) \<mapsto> e)) (parents s)
        (discardEvents deps opts (heap s) events) parentId = Some p \<longrightarrow> id' (heap s p) = parentId"
    by (rule parents_fold_ok)
  moreover have "parents (s\<lparr>parents := X\<rparr>) = X" "heap (s\<lparr>parents := X\<rparr>) = heap s" for X
    by simp_all
  ultimately have "parents_ok (on_parents_batch deps opts events s)"
    unfolding parents_ok_def on_parents_batch_def by (simp only:)
  then show "ranked deps rk (heap (on_parents_batch deps opts events s)) \<and>
         parents_ok (on_parents_batch deps opts events s)"
    using assms(1) by (simp add: on_parents_batch_def)
qed

lemma step_total:
  assumes "ranked deps rk (heap s)" and "parents_ok s"
  shows "\<exists>s'. step deps opts a s = Some s' \<and> ranked deps rk (heap s') \<and> parents_ok s'"
proof (cases a)
  case (Load n taken now)
  then show ?thesis using step_total_load[OF assms] by simp
next
  case LoadBuffer
  then show ?thesis using step_total_loadBuffer[OF assms] by simp
next
  case (Fire i)
  then show ?thesis using step_total_fire[OF assms] by simp
next
  case Stop
  then show ?thesis using step_total_rest(1)[OF assms] by simp
next
  case (LiveBatch events)
  then show ?thesis using step_total_rest(2)[OF assms] by simp
next
  case (ParentsBatch events)
  then show ?thesis using step_total_rest(4)[OF assms] by simp
next
  case (SubClosed sub)
  then show ?thesis using step_total_rest(3)[OF assms] by simp
qed

lemma run_total:
  assumes "ranked deps rk (heap s)" and "parents_ok s"
  shows "\<exists>s'. run deps opts acts s = Some s'"
  using assms
proof (induction acts arbitrary: s)
  case Nil
  then show ?case by simp
next
  case (Cons a acts)
  from step_total[OF Cons.prems] obtain s1 where s1: "step deps opts a s = Some s1"
    "ranked deps rk (heap s1)" "parents_ok s1" by blast
  from Cons.IH[OF s1(2,3)] show ?case using s1(1) by simp
qed

lemma example_store_ranked: "ranked example_deps (\<lambda>a. if a = 0 then 0 else 1) example_store"
  by (simp add: ranked_def example_store_def example_deps_def ev_def reply_target_def)

lemma example_loader_parents_ok: "parents_ok example_loader"
  by (simp add: parents_ok_def example_loader_def construct_def addSubs_def)

lemma example_runs_return: "\<exists>s'. run example_deps example_opts acts example_loader = Some s'"
proof -
  have "heap example_loader = example_store"
    by (simp add: example_loader_def construct_def addSubs_def)
  then show ?thesis
    using run_total[of example_deps _ example_loader] example_store_ranked
      example_loader_parents_ok
    by simp
qed

end
